theory Spec2Isabelle
  imports Main
begin

section \<open>Data model\<close>

text \<open>
  Go's \<open>int\<close> is modelled as \<open>int\<close>: every integer of diff.go is an index into, or a
  length of, a slice or string held in memory, so no computation leaves the 64-bit range.
  A Go \<open>string\<close> is a byte sequence and \<open>len\<close> counts bytes: \<open>string\<close> with \<open>length\<close>.
  Slices are lists whose capacity equals their length.

  A run-time panic is a value of type \<open>panic\<close>; a function that can panic returns
  \<open>panic + 'a\<close>. A Go \<open>error\<close> result is an ordinary value, \<open>go_error option\<close>
  (\<open>None\<close> is \<open>nil\<close>).
\<close>

datatype panic = IndexOutOfRange | NilDereference | PanicMsg string

datatype go_error = ErrorsNew string | EOF | OverlapOrRangeError

record OffsetLength =
  Offset :: int
  Length :: int

record edit = OffsetLength +
  replacement :: string

type_synonym editSet = "string \<rightharpoonup> edit list"

record hunk =
  startOffset :: int
  startLine :: int
  numLines :: int
  hunk :: string
  edits :: "edit list"

record Patch =
  filename :: string
  hunks :: "hunk list"

text \<open>
  The \<open>io.Reader\<close> wrapped by a \<open>lineRdr\<close> is an in-memory text: \<open>reader\<close> holds the
  bytes not read yet, and the only read error is \<open>io.EOF\<close>.
\<close>

record lineRdr =
  reader :: string
  line :: string
  lineOffset :: int
  lineNum :: int
  err :: "go_error option"
  leadingCtxLines :: "string list"

text \<open>The mark \<open>nextIndex\<close> of an \<open>editIter\<close> starts at 0 and is only ever incremented: a
  \<open>nat\<close>.\<close>

record editIter =
  iter_edits :: "edit list"
  nextIndex :: nat

definition at :: "'a list \<Rightarrow> int \<Rightarrow> panic + 'a" where
  "at xs i = (if 0 \<le> i \<and> i < int (length xs) then Inr (xs ! nat i) else Inl IndexOutOfRange)"

definition store :: "'a list \<Rightarrow> int \<Rightarrow> 'a \<Rightarrow> panic + 'a list" where
  "store xs i x =
     (if 0 \<le> i \<and> i < int (length xs) then Inr (xs[nat i := x]) else Inl IndexOutOfRange)"

definition OffsetPastEnd :: "('a OffsetLength_scheme) \<Rightarrow> int" where
  \<comment> \<open>Modelled from the spec: the method \<open>OffsetLength.OffsetPastEnd\<close> is declared outside
      diff.go; an edit covers \<open>[offset, offset+length)\<close>.\<close>
  "OffsetPastEnd o' = Offset o' + Length o'"

definition RelativeToOffset :: "edit \<Rightarrow> int \<Rightarrow> edit" where
  \<comment> \<open>Modelled from the spec: the method \<open>edit.RelativeToOffset\<close> is declared outside
      diff.go; a hunk holds its edits relative to its start offset.\<close>
  "RelativeToOffset e off = e\<lparr>Offset := Offset e - off\<rparr>"

definition NewEditSet :: editSet where
  \<comment> \<open>Modelled from the spec: \<open>NewEditSet\<close> is declared outside diff.go; a fresh EditSet
      has no edits for any file.\<close>
  "NewEditSet = Map.empty"

definition file_edits :: "editSet \<Rightarrow> string \<Rightarrow> edit list" where
  \<comment> \<open>The Go expression \<open>e.edits[filename]\<close>: the nil slice, without edits, for a file that
      has no entry.\<close>
  "file_edits es fname = (case es fname of None \<Rightarrow> [] | Some l \<Rightarrow> l)"

fun insert_edit :: "edit \<Rightarrow> edit list \<Rightarrow> edit list" where
  "insert_edit e [] = [e]"
| "insert_edit e (x # xs) = (if Offset e \<le> Offset x then e # x # xs else x # insert_edit e xs)"

definition editSet_Add ::
  "editSet \<Rightarrow> string \<Rightarrow> OffsetLength \<Rightarrow> string \<Rightarrow> go_error option \<times> editSet" where
  \<comment> \<open>Modelled from the spec: \<open>editSet.Add\<close> is declared outside diff.go. The spec: an
      EditSet maps a file to its edits sorted ascending by offset; \<open>add\<close> fails only on a
      rendered Patch. The new edit goes before the first edit whose offset is not smaller,
      so edits added in reverse textual order end in textual order.\<close>
  "editSet_Add es fname ol repl =
     (None,
      es(fname \<mapsto>
         insert_edit \<lparr>Offset = Offset ol, Length = Length ol, replacement = repl\<rparr>
           (file_edits es fname)))"

section \<open>The greedy shortest-edit-script search (\<open>Diff\<close>)\<close>

definition abs_go :: "int \<Rightarrow> int" where
  "abs_go n = (if n < 0 then - n else n)"

text \<open>The inner loop \<open>for x < n && y < m && a[x] == b[y]\<close>.\<close>

function snake :: "string list \<Rightarrow> string list \<Rightarrow> int \<Rightarrow> int \<Rightarrow> panic + (int \<times> int)" where
  "snake a b x y =
     (if x < int (length a) \<and> y < int (length b) then
        (case at a x of
           Inl e \<Rightarrow> Inl e
         | Inr ax \<Rightarrow>
             (case at b y of
                Inl e \<Rightarrow> Inl e
              | Inr by \<Rightarrow> if ax = by then snake a b (x + 1) (y + 1) else Inr (x, y)))
      else Inr (x, y))"
  by pat_completeness auto
termination
  by (relation "measure (\<lambda>(a, b, x, y). nat (int (length a) - x))") auto

text \<open>
  The choice of the predecessor diagonal, with the short-circuit evaluation of
  \<open>k == -d || k != d && abs(v[offset+k-1]) < abs(v[offset+k+1])\<close>: the result is the
  starting \<open>x\<close> and the flag \<open>vert\<close>.
\<close>

definition choose_move :: "int \<Rightarrow> int \<Rightarrow> int \<Rightarrow> int list \<Rightarrow> panic + (int \<times> bool)" where
  "choose_move offset d k v =
     (case (if k = - d then Inr True
            else if k \<noteq> d then
              (case at v (offset + k - 1) of
                 Inl e \<Rightarrow> Inl e
               | Inr l \<Rightarrow>
                   (case at v (offset + k + 1) of
                      Inl e \<Rightarrow> Inl e
                    | Inr r \<Rightarrow> Inr (abs_go l < abs_go r)))
            else Inr False) of
        Inl e \<Rightarrow> Inl e
      | Inr True \<Rightarrow>
          (case at v (offset + k + 1) of Inl e \<Rightarrow> Inl e | Inr r \<Rightarrow> Inr (abs_go r, False))
      | Inr False \<Rightarrow>
          (case at v (offset + k - 1) of Inl e \<Rightarrow> Inl e | Inr l \<Rightarrow> Inr (abs_go l + 1, True)))"

text \<open>
  One pass of the body of the \<open>k\<close> loop: the extended point \<open>(x, y)\<close> on diagonal \<open>k\<close>
  and the frontier with \<open>v[offset+k]\<close> stored (negated for a vertical move).
\<close>

definition diag_step ::
  "string list \<Rightarrow> string list \<Rightarrow> int \<Rightarrow> int \<Rightarrow> int list \<Rightarrow> panic + (int \<times> int \<times> int list)" where
  "diag_step a b d k v =
     (let offset = int (length b) + int (length a) in
      case choose_move offset d k v of
        Inl e \<Rightarrow> Inl e
      | Inr (x0, vert) \<Rightarrow>
          (case snake a b x0 (x0 - k) of
             Inl e \<Rightarrow> Inl e
           | Inr (x, y) \<Rightarrow>
               (case store v (offset + k) (if vert then - x else x) of
                  Inl e \<Rightarrow> Inl e
                | Inr v' \<Rightarrow> Inr (x, y, v'))))"

text \<open>
  The loop \<open>for k := -d; k <= d; k += 2\<close>. \<open>Inr (True, v)\<close>: the search returned
  inside the loop with the frontier \<open>v\<close>; \<open>Inr (False, v)\<close>: the loop ran to its end.
\<close>

function k_loop ::
  "string list \<Rightarrow> string list \<Rightarrow> int \<Rightarrow> int \<Rightarrow> int list \<Rightarrow> panic + (bool \<times> int list)" where
  "k_loop a b d k v =
     (if k \<le> d then
        (case diag_step a b d k v of
           Inl e \<Rightarrow> Inl e
         | Inr (x, y, v') \<Rightarrow>
             if x \<ge> int (length a) \<and> y \<ge> int (length b) then Inr (True, v')
             else k_loop a b d (k + 2) v')
      else Inr (False, v))"
  by pat_completeness auto
termination
  by (relation "measure (\<lambda>(a, b, d, k, v). nat (d + 1 - k))") auto

text \<open>
  The loop \<open>for d := 0; d <= max; d++\<close>, returning the history \<open>vs\<close> handed to
  \<open>constructEditSet\<close>, or the panic after the loop.
\<close>

function d_loop ::
  "string list \<Rightarrow> string list \<Rightarrow> int \<Rightarrow> int list \<Rightarrow> int list list \<Rightarrow> panic + int list list" where
  "d_loop a b d v vs =
     (if d \<le> int (length b) + int (length a) then
        (case k_loop a b d (- d) v of
           Inl e \<Rightarrow> Inl e
         | Inr (True, v') \<Rightarrow> Inr (vs @ [v'])
         | Inr (False, v') \<Rightarrow> d_loop a b (d + 1) v' (vs @ [v']))
      else Inl (PanicMsg ''Length of SES longer than max (impossible)''))"
  by pat_completeness auto
termination
  by (relation "measure (\<lambda>(a, b, d, v, vs). nat (int (length b) + int (length a) + 1 - d))") auto

text \<open>\<open>offsetOfString\<close>: the loop \<open>for i := 0; i < index; i++\<close> with its accumulator.\<close>

function offsetOfString_loop :: "int \<Rightarrow> int \<Rightarrow> string list \<Rightarrow> int \<Rightarrow> panic + int" where
  "offsetOfString_loop i index ss result =
     (if i < index then
        (case at ss i of
           Inl e \<Rightarrow> Inl e
         | Inr s \<Rightarrow> offsetOfString_loop (i + 1) index ss (result + int (length s)))
      else Inr result)"
  by pat_completeness auto
termination
  by (relation "measure (\<lambda>(i, index, ss, result). nat (index - i))") auto

definition offsetOfString :: "int \<Rightarrow> string list \<Rightarrow> panic + int" where
  "offsetOfString index ss = offsetOfString_loop 0 index ss 0"

text \<open>The slice expression \<open>b[lo : lo+1]\<close>.\<close>

definition slice1 :: "'a list \<Rightarrow> int \<Rightarrow> panic + 'a list" where
  "slice1 xs lo =
     (if 0 \<le> lo \<and> lo + 1 \<le> int (length xs) then Inr [xs ! nat lo] else Inl IndexOutOfRange)"

text \<open>
  One pass of the body of the loop \<open>for len(vs) > 1\<close> of \<open>constructEditSet\<close>, up to the
  call of \<open>result.Add\<close>: the new \<open>k\<close> and the arguments of that call.
\<close>

definition backtrace_step ::
  "string list \<Rightarrow> string list \<Rightarrow> int list list \<Rightarrow> int \<Rightarrow> panic + (int \<times> OffsetLength \<times> string)"
  where
  "backtrace_step a b vs k =
     (let offset = int (length b) + int (length a);
          v = last vs in
      case at v (offset + k) of
        Inl e \<Rightarrow> Inl e
      | Inr v_k \<Rightarrow>
          (let x = abs_go v_k;
               y = x - k;
               vs' = butlast vs;
               v' = last vs';
               k' = (if v_k > 0 then k + 1 else k - 1) in
           case at v' (offset + k') of
             Inl e \<Rightarrow> Inl e
           | Inr next_v_k \<Rightarrow>
               (let next_x = abs_go next_v_k;
                    next_y = next_x - k' in
                if v_k > 0 then
                  (let charsToCopy = y - next_y - 1;
                       insertOffset = x - charsToCopy in
                   case offsetOfString insertOffset a of
                     Inl e \<Rightarrow> Inl e
                   | Inr off \<Rightarrow>
                       (let copyOffset = y - charsToCopy - 1 in
                        case slice1 b copyOffset of
                          Inl e \<Rightarrow> Inl e
                        | Inr replaceWith \<Rightarrow>
                            Inr (k', \<lparr>Offset = off, Length = 0\<rparr>, concat replaceWith)))
                else
                  (let charsToCopy = x - next_x - 1;
                       deleteOffset = x - charsToCopy - 1 in
                   case offsetOfString deleteOffset a of
                     Inl e \<Rightarrow> Inl e
                   | Inr off \<Rightarrow>
                       (case at a deleteOffset of
                          Inl e \<Rightarrow> Inl e
                        | Inr s \<Rightarrow>
                            Inr (k', \<lparr>Offset = off, Length = int (length s)\<rparr>, ''''))))))"

text \<open>The loop \<open>for len(vs) > 1\<close> of \<open>constructEditSet\<close>, on the state \<open>(vs, k, result)\<close>.\<close>

function constructEditSet_loop ::
  "string \<Rightarrow> string list \<Rightarrow> string list \<Rightarrow> int list list \<Rightarrow> int \<Rightarrow> editSet \<Rightarrow> panic + editSet"
  where
  "constructEditSet_loop fname a b vs k result =
     (if length vs > 1 then
        (case backtrace_step a b vs k of
           Inl e \<Rightarrow> Inl e
         | Inr (k', ol, repl) \<Rightarrow>
             constructEditSet_loop fname a b (butlast vs) k'
               (snd (editSet_Add result fname ol repl)))
      else Inr result)"
  by pat_completeness auto
termination
  by (relation "measure (\<lambda>(fname, a, b, vs, k, result). length vs)") auto

definition constructEditSet ::
  "string \<Rightarrow> string list \<Rightarrow> string list \<Rightarrow> int list list \<Rightarrow> panic + editSet" where
  "constructEditSet fname a b vs =
     constructEditSet_loop fname a b vs (int (length a) - int (length b)) NewEditSet"

definition Diff :: "string \<Rightarrow> string list \<Rightarrow> string list \<Rightarrow> panic + editSet" where
  "Diff fname a b =
     (let n = int (length a);
          m = int (length b);
          max = m + n in
      if n = 0 \<and> m = 0 then Inr NewEditSet
      else if n = 0 then
        Inr (snd (editSet_Add NewEditSet fname \<lparr>Offset = 0, Length = 0\<rparr> (concat b)))
      else if m = 0 then
        Inr (snd (editSet_Add NewEditSet fname
               \<lparr>Offset = 0, Length = int (length (concat a))\<rparr> ''''))
      else
        (case store (replicate (nat (2 * max)) 0) (max + 1) 0 of
           Inl e \<Rightarrow> Inl e
         | Inr v \<Rightarrow>
             (case d_loop a b 0 v [] of
                Inl e \<Rightarrow> Inl e
              | Inr vs \<Rightarrow> constructEditSet fname a b vs)))"

section \<open>Unified diffs\<close>

definition num_ctx_lines :: int where
  "num_ctx_lines = 3"

subsection \<open>The EditSet operations used by the renderer\<close>

fun apply_edits :: "edit list \<Rightarrow> int \<Rightarrow> string \<Rightarrow> go_error + string" where
  "apply_edits [] pos inp = Inr inp"
| "apply_edits (e # es) pos inp =
     (if Offset e < pos \<or> Length e < 0 \<or> Offset e + Length e - pos > int (length inp)
      then Inl OverlapOrRangeError
      else
        (case apply_edits es (Offset e + Length e) (drop (nat (Offset e + Length e - pos)) inp) of
           Inl er \<Rightarrow> Inl er
         | Inr rest \<Rightarrow> Inr (take (nat (Offset e - pos)) inp @ replacement e @ rest)))"

definition editSet_ApplyTo :: "editSet \<Rightarrow> string \<Rightarrow> string \<Rightarrow> go_error + string" where
  \<comment> \<open>Modelled from the spec: \<open>editSet.ApplyTo\<close> is declared outside diff.go. The spec:
      the edits of the file are applied in ascending offset order, each replacing \<open>length\<close>
      bytes at \<open>offset\<close> of the original text by its replacement; an edit that starts
      before the end of its predecessor or reaches past the end of the text fails with
      an overlap-or-range error.\<close>
  "editSet_ApplyTo es key inp =
     apply_edits (file_edits es key) 0 inp"

subsection \<open>Formatting and splitting (Go's \<open>fmt\<close>, \<open>strings\<close> and \<open>bufio\<close>)\<close>

function digits :: "nat \<Rightarrow> string" where
  "digits n = (if n < 10 then [''0123456789'' ! n] else digits (n div 10) @ [''0123456789'' ! (n mod 10)])"
  by pat_completeness auto
termination
  by (relation "measure id") auto

definition fmt_d :: "int \<Rightarrow> string" where
  "fmt_d i = (if i < 0 then ''-'' @ digits (nat (- i)) else digits (nat i))"

text \<open>\<open>strings.SplitAfter(s, sep)\<close> for a one-byte separator: a text that ends with the
  separator yields a last, empty element.\<close>

fun SplitAfter :: "string \<Rightarrow> char \<Rightarrow> string list" where
  "SplitAfter [] sep = [[]]"
| "SplitAfter (c # cs) sep =
     (if c = sep then [c] # SplitAfter cs sep
      else (case SplitAfter cs sep of [] \<Rightarrow> [[c]] | l # ls \<Rightarrow> (c # l) # ls))"

text \<open>\<open>bufio.Reader.ReadString(delim)\<close> on the unread bytes: the line up to and including
  the delimiter, the bytes left, and \<open>io.EOF\<close> with the bytes read when no delimiter is left.\<close>

definition ReadString :: "string \<Rightarrow> char \<Rightarrow> string \<times> string \<times> go_error option" where
  "ReadString inp delim =
     (if delim \<in> set inp
      then (takeWhile (\<lambda>c. c \<noteq> delim) inp @ [delim], tl (dropWhile (\<lambda>c. c \<noteq> delim) inp), None)
      else (inp, [], Some EOF))"

subsection \<open>Patch\<close>

definition Patch_Edits :: "Patch \<Rightarrow> (string \<rightharpoonup> edit list)" where
  "Patch_Edits p = [filename p \<mapsto> foldl (\<lambda>acc h. acc @ edits h) [] (hunks p)]"

text \<open>The methods with receiver \<open>*Patch\<close> return the receiver's state after the call next
  to their results.\<close>

definition Patch_Add ::
  "Patch \<Rightarrow> string \<Rightarrow> OffsetLength \<Rightarrow> string \<Rightarrow> go_error option \<times> Patch" where
  "Patch_Add p key ol repl = (Some (ErrorsNew ''Add cannot be called on Patch (read-only)''), p)"

definition Patch_ApplyTo :: "Patch \<Rightarrow> string \<Rightarrow> string \<Rightarrow> panic + (go_error option \<times> string)" where
  "Patch_ApplyTo p key inp = Inl (PanicMsg ''Not implemented'')"

definition Patch_ApplyToFile :: "Patch \<Rightarrow> string \<Rightarrow> panic + (go_error option \<times> string)" where
  "Patch_ApplyToFile p fname = Inl (PanicMsg ''Not implemented'')"

definition Patch_ApplyToString :: "Patch \<Rightarrow> string \<Rightarrow> string \<Rightarrow> panic + (string \<times> go_error option)" where
  "Patch_ApplyToString p key s = Inl (PanicMsg ''Not implemented'')"

definition Patch_CreatePatch :: "Patch \<Rightarrow> string \<Rightarrow> string \<Rightarrow> Patch \<times> go_error option" where
  "Patch_CreatePatch p key inp = (p, None)"

definition Patch_add :: "Patch \<Rightarrow> hunk \<Rightarrow> Patch" where
  "Patch_add p h = p\<lparr>hunks := hunks p @ [h]\<rparr>"

subsection \<open>Edit iterators\<close>

definition newEditIter :: "editSet \<Rightarrow> string \<Rightarrow> editIter" where
  "newEditIter e fname =
     \<lparr>iter_edits = file_edits e fname, nextIndex = 0\<rparr>"

definition editIter_edit :: "editIter \<Rightarrow> edit option" where
  "editIter_edit it =
     (if nextIndex it \<ge> length (iter_edits it) then None
      else Some (iter_edits it ! nextIndex it))"

definition moveToNextEdit :: "editIter \<Rightarrow> editIter" where
  "moveToNextEdit it = it\<lparr>nextIndex := nextIndex it + 1\<rparr>"

subsection \<open>Rendering one hunk\<close>

text \<open>The loop \<open>for sesIter.edit() != nil && sesIter.edit().Offset == offset\<close> on the state
  (iterator, \<open>deleted\<close>, output).\<close>

function emit_edits :: "editIter \<Rightarrow> int \<Rightarrow> string \<Rightarrow> bool \<Rightarrow> string \<Rightarrow> editIter \<times> bool \<times> string" where
  "emit_edits it offset ln deleted out =
     (case editIter_edit it of
        None \<Rightarrow> (it, deleted, out)
      | Some e \<Rightarrow>
          if Offset e = offset then
            (if Length e > 0
             then emit_edits (moveToNextEdit it) offset ln True (out @ ''-'' @ ln)
             else emit_edits (moveToNextEdit it) offset ln deleted (out @ ''+'' @ replacement e))
          else (it, deleted, out))"
  by pat_completeness auto
termination
  by (relation "measure (\<lambda>(it, offset, ln, deleted, out). length (iter_edits it) - nextIndex it)")
     (auto simp: editIter_edit_def moveToNextEdit_def split: if_splits)

text \<open>The loop \<open>for i, line := range origLines\<close>.\<close>

fun emit_lines :: "string list \<Rightarrow> editIter \<Rightarrow> int \<Rightarrow> string \<Rightarrow> string" where
  "emit_lines [] it offset out = out"
| "emit_lines (ln # lns) it offset out =
     (if editIter_edit it = None \<or> Offset (the (editIter_edit it)) > offset
      then emit_lines lns it (offset + int (length ln)) (out @ '' '' @ ln)
      else
        (case emit_edits it offset ln False out of
           (it', deleted, out') \<Rightarrow>
             emit_lines lns it' (offset + int (length ln))
               (if \<not> deleted then out' @ '' '' @ ln else out')))"

definition writeUnifiedDiffHunk ::
  "hunk \<Rightarrow> int \<Rightarrow> string \<Rightarrow> panic + (int \<times> go_error option \<times> string)" where
  "writeUnifiedDiffHunk h outputLineOffset out =
     (let es = [[] \<mapsto> edits h];
          hunk_text = hunk h in
      case editSet_ApplyTo es [] hunk_text of
        Inl er \<Rightarrow> Inr (0, Some er, out)
      | Inr newText \<Rightarrow>
          (let origLines = SplitAfter hunk_text CHR 0x0A;
               newLines = SplitAfter newText CHR 0x0A;
               out1 = out @ ''@@ -'' @ fmt_d (startLine h) @ '','' @ fmt_d (int (length origLines))
                        @ '' +'' @ fmt_d (startLine h + outputLineOffset) @ '',''
                        @ fmt_d (int (length newLines)) @ '' @@'' @ [CHR 0x0A] in
           case Diff [] origLines newLines of
             Inl pn \<Rightarrow> Inl pn
           | Inr diff \<Rightarrow>
               Inr (int (length newLines) - int (length origLines), None,
                    emit_lines origLines (newEditIter diff []) 0 out1)))"

fun Write_hunks :: "hunk list \<Rightarrow> int \<Rightarrow> string \<Rightarrow> panic + (go_error option \<times> string)" where
  "Write_hunks [] lineOff out = Inr (None, out)"
| "Write_hunks (h # hs) lineOff out =
     (case writeUnifiedDiffHunk h lineOff out of
        Inl pn \<Rightarrow> Inl pn
      | Inr (adjust, er, out') \<Rightarrow>
          if er \<noteq> None then Inr (er, out') else Write_hunks hs (lineOff + adjust) out')"

definition Patch_Write :: "Patch \<Rightarrow> string \<Rightarrow> panic + (go_error option \<times> string)" where
  "Patch_Write p out =
     Write_hunks (hunks p) 0
       (out @ ''--- '' @ filename p @ [CHR 0x0A] @ ''+++ '' @ filename p @ [CHR 0x0A])"

definition Patch_String :: "Patch \<Rightarrow> panic + string" where
  "Patch_String p = (case Patch_Write p [] of Inl pn \<Rightarrow> Inl pn | Inr (er, out) \<Rightarrow> Inr out)"

section \<open>Hunk assembly (\<open>createPatch\<close>)\<close>

subsection \<open>Hunks and the line reader\<close>

definition addLine :: "hunk \<Rightarrow> string \<Rightarrow> hunk" where
  "addLine h ln = h\<lparr>hunk := hunk h @ ln, numLines := numLines h + 1\<rparr>"

definition addEdit :: "hunk \<Rightarrow> edit \<Rightarrow> hunk" where
  "addEdit h e = h\<lparr>edits := edits h @ [RelativeToOffset e (startOffset h)]\<rparr>"

definition newLineRdr :: "string \<Rightarrow> lineRdr" where
  "newLineRdr inp =
     \<lparr>reader = inp, line = [], lineOffset = 0, lineNum = 0, err = None, leadingCtxLines = []\<rparr>"

definition readLine :: "lineRdr \<Rightarrow> lineRdr" where
  "readLine l =
     (let l1 = (if lineNum l > 0
                then l\<lparr>leadingCtxLines :=
                         (if int (length (leadingCtxLines l)) = num_ctx_lines
                          then tl (leadingCtxLines l) else leadingCtxLines l) @ [line l]\<rparr>
                else l);
          l2 = l1\<lparr>lineOffset := lineOffset l1 + int (length (line l1)),
                  lineNum := lineNum l1 + 1\<rparr>
      in case ReadString (reader l2) CHR 0x0A of
           (s, rest, er) \<Rightarrow> l2\<lparr>line := s, reader := rest, err := er\<rparr>)"

definition offsetPastEnd :: "lineRdr \<Rightarrow> int" where
  "offsetPastEnd l = lineOffset l + int (length (line l))"

definition editAddsToStart :: "lineRdr \<Rightarrow> edit option \<Rightarrow> bool" where
  "editAddsToStart l e =
     (case e of None \<Rightarrow> False | Some e' \<Rightarrow> Offset e' = lineOffset l \<and> Length e' = 0)"

definition currentLineIsAffectedBy :: "lineRdr \<Rightarrow> edit option \<Rightarrow> bool" where
  "currentLineIsAffectedBy l e =
     (case e of
        None \<Rightarrow> False
      | Some e' \<Rightarrow> Offset e' < offsetPastEnd l \<and> OffsetPastEnd e' \<ge> lineOffset l)"

definition nextLineIsAffectedBy :: "lineRdr \<Rightarrow> edit option \<Rightarrow> bool" where
  "nextLineIsAffectedBy l e =
     (case e of None \<Rightarrow> False | Some e' \<Rightarrow> OffsetPastEnd e' \<ge> offsetPastEnd l)"

definition startHunk :: "lineRdr \<Rightarrow> hunk" where
  "startHunk lr =
     (let h = \<lparr>startOffset = lineOffset lr, startLine = lineNum lr, numLines = 1,
               hunk = [], edits = []\<rparr>;
          h' = foldl (\<lambda>h ln. h\<lparr>startOffset := startOffset h - int (length ln),
                                startLine := startLine h - 1,
                                numLines := numLines h + 1,
                                hunk := hunk h @ ln\<rparr>) h (leadingCtxLines lr)
      in h'\<lparr>hunk := hunk h' @ line lr\<rparr>)"

text \<open>The loop of \<open>addAllEditsOnCurLine\<close> on the state (hunk, iterator, \<open>lastEdit\<close>);
  \<open>hunk.addEdit\<close> dereferences the edit under the mark.\<close>

function addAllEdits_loop ::
  "hunk \<Rightarrow> lineRdr \<Rightarrow> editIter \<Rightarrow> edit option \<Rightarrow> panic + (edit option \<times> hunk \<times> editIter)" where
  "addAllEdits_loop h rd it lastEdit =
     (if currentLineIsAffectedBy rd (editIter_edit it) then
        (if nextLineIsAffectedBy rd (editIter_edit it) then Inr (lastEdit, h, it)
         else
           (case editIter_edit it of
              None \<Rightarrow> Inl NilDereference
            | Some e \<Rightarrow> addAllEdits_loop (addEdit h e) rd (moveToNextEdit it) (editIter_edit it)))
      else Inr (lastEdit, h, it))"
  by pat_completeness auto
termination
  by (relation "measure (\<lambda>(h, rd, it, lastEdit). length (iter_edits it) - nextIndex it)")
     (auto simp: editIter_edit_def moveToNextEdit_def split: if_splits)

definition addAllEditsOnCurLine ::
  "hunk \<Rightarrow> lineRdr \<Rightarrow> editIter \<Rightarrow> panic + (edit option \<times> hunk \<times> editIter)" where
  "addAllEditsOnCurLine h rd it = addAllEdits_loop h rd it (editIter_edit it)"

subsection \<open>The state machine\<close>

datatype hunk_state = HUNK_NOT_STARTED | ADDING_TO_HUNK | EDIT_ADDED_TO_HUNK

text \<open>The variables of \<open>createPatch\<close> that the loop body changes; \<open>cur_hunk\<close> is the
  pointer \<open>hunk\<close> (\<open>None\<close> is \<open>nil\<close>).\<close>

record cp_state =
  iter :: editIter
  curState :: hunk_state
  cur_hunk :: "hunk option"
  trailingCtxLines :: int
  result :: Patch

text \<open>The block that the three cases of the \<open>switch\<close> share word for word: attach the
  edits of the current line, then choose the next state.\<close>

definition attach_edits :: "lineRdr \<Rightarrow> cp_state \<Rightarrow> panic + cp_state" where
  "attach_edits rd s =
     (case cur_hunk s of
        None \<Rightarrow> Inl NilDereference
      | Some h \<Rightarrow>
          (case addAllEditsOnCurLine h rd (iter s) of
             Inl pn \<Rightarrow> Inl pn
           | Inr (last_e, h', it') \<Rightarrow>
               (let s' = s\<lparr>cur_hunk := Some h', iter := it'\<rparr> in
                if nextLineIsAffectedBy rd last_e then Inr (s'\<lparr>curState := ADDING_TO_HUNK\<rparr>)
                else Inr (s'\<lparr>trailingCtxLines := (if editAddsToStart rd last_e then 1 else 0),
                              curState := EDIT_ADDED_TO_HUNK\<rparr>))))"

definition createPatch_body :: "lineRdr \<Rightarrow> cp_state \<Rightarrow> panic + cp_state" where
  "createPatch_body rd s =
     (case curState s of
        HUNK_NOT_STARTED \<Rightarrow>
          if currentLineIsAffectedBy rd (editIter_edit (iter s))
          then attach_edits rd (s\<lparr>cur_hunk := Some (startHunk rd)\<rparr>)
          else Inr (s\<lparr>curState := HUNK_NOT_STARTED\<rparr>)
      | ADDING_TO_HUNK \<Rightarrow>
          (case cur_hunk s of
             None \<Rightarrow> Inl NilDereference
           | Some h \<Rightarrow> attach_edits rd (s\<lparr>cur_hunk := Some (addLine h (line rd))\<rparr>))
      | EDIT_ADDED_TO_HUNK \<Rightarrow>
          (case cur_hunk s of
             None \<Rightarrow> Inl NilDereference
           | Some h \<Rightarrow>
               (let s1 = s\<lparr>cur_hunk := Some (addLine h (line rd))\<rparr> in
                if currentLineIsAffectedBy rd (editIter_edit (iter s1)) then attach_edits rd s1
                else
                  (let s2 = s1\<lparr>trailingCtxLines := trailingCtxLines s1 + 1\<rparr> in
                   if trailingCtxLines s2 < 2 * num_ctx_lines
                   then Inr (s2\<lparr>curState := EDIT_ADDED_TO_HUNK\<rparr>)
                   else Inr (s2\<lparr>result := Patch_add (result s2) (addLine h (line rd)),
                                  cur_hunk := None,
                                  curState := HUNK_NOT_STARTED\<rparr>)))))"

text \<open>The loop \<open>for err = reader.readLine(); err == nil; err = reader.readLine()\<close>: the
  reader and the state at the exit of the loop.\<close>

function createPatch_loop :: "lineRdr \<Rightarrow> cp_state \<Rightarrow> panic + (lineRdr \<times> cp_state)" where
  "createPatch_loop rd s =
     (let rd' = readLine rd in
      if err rd' = None then
        (case createPatch_body rd' s of
           Inl pn \<Rightarrow> Inl pn
         | Inr s' \<Rightarrow> createPatch_loop rd' s')
      else Inr (rd', s))"
  by pat_completeness auto
termination
proof (relation "measure (\<lambda>(rd, s). length (reader rd))")
  show "wf (measure (\<lambda>(rd, s). length (reader rd)))"
    by simp
next
  fix rd :: lineRdr and s :: cp_state and rd' s'
  assume rd': "rd' = readLine rd" and ok: "err rd' = None"
  have shrink: "length (tl (dropWhile (\<lambda>c. c \<noteq> CHR 0x0A) xs)) < length xs"
    if "CHR 0x0A \<in> set xs" for xs :: string
  proof -
    from that have "dropWhile (\<lambda>c. c \<noteq> CHR 0x0A) xs \<noteq> []"
      by auto
    then have "length (tl (dropWhile (\<lambda>c. c \<noteq> CHR 0x0A) xs))
                 < length (dropWhile (\<lambda>c. c \<noteq> CHR 0x0A) xs)"
      by simp
    also have "\<dots> \<le> length xs"
      by (rule length_dropWhile_le)
    finally show ?thesis .
  qed
  from ok shrink [of "reader rd"] have "length (reader rd') < length (reader rd)"
    unfolding rd' readLine_def ReadString_def Let_def
    by (auto split: if_splits)
  then show "((rd', s'), (rd, s)) \<in> measure (\<lambda>(rd, s). length (reader rd))"
    by simp
qed

text \<open>The part of \<open>createPatch\<close> after the early return for an EditSet without files.\<close>

definition createPatch_main :: "editSet \<Rightarrow> string \<Rightarrow> string \<Rightarrow> panic + (Patch \<times> go_error option)" where
  "createPatch_main e key inp =
     (case createPatch_loop (newLineRdr inp)
             \<lparr>iter = newEditIter e key, curState = HUNK_NOT_STARTED, cur_hunk = None,
              trailingCtxLines = 0, result = \<lparr>filename = key, hunks = []\<rparr>\<rparr> of
        Inl pn \<Rightarrow> Inl pn
      | Inr (rd, s) \<Rightarrow>
          (let er = (if err rd = Some EOF then None else err rd) in
           if curState s = ADDING_TO_HUNK \<or> curState s = EDIT_ADDED_TO_HUNK then
             (case cur_hunk s of
                None \<Rightarrow> Inl NilDereference
              | Some h \<Rightarrow>
                  (let h1 = (if line rd \<noteq> [] then addLine h (line rd) else h) in
                   if curState s = ADDING_TO_HUNK then
                     (case addAllEditsOnCurLine h1 rd (iter s) of
                        Inl pn \<Rightarrow> Inl pn
                      | Inr (last_e, h2, it') \<Rightarrow> Inr (Patch_add (result s) h2, er))
                   else Inr (Patch_add (result s) h1, er)))
           else Inr (result s, er)))"

definition createPatch :: "editSet \<Rightarrow> string \<Rightarrow> string \<Rightarrow> panic + (Patch \<times> go_error option)" where
  "createPatch e key inp =
     (if e = Map.empty then Inr (\<lparr>filename = key, hunks = []\<rparr>, None)
      else createPatch_main e key inp)"

section \<open>The edit graph and the invariants of the search\<close>

text \<open>
  The notions below are not code: they state what the search computes. \<open>reach a b d x y\<close>:
  the point \<open>(x, y)\<close> of the edit graph of \<open>a\<close> and \<open>b\<close> is reached from \<open>(0, 0)\<close> by a
  path with exactly \<open>d\<close> non-diagonal moves (a deletion moves right, an insertion moves
  down, a diagonal move needs \<open>a[x] = b[y]\<close>); as in the code, non-diagonal moves may leave
  the rectangle. \<open>lcs\<close> is the reference length of a longest common subsequence, by the
  textbook recursion, and \<open>ed\<close> the edit distance \<open>|a| + |b| - 2 * lcs a b\<close> it gives.
\<close>

inductive reach :: "string list \<Rightarrow> string list \<Rightarrow> int \<Rightarrow> int \<Rightarrow> int \<Rightarrow> bool"
  for a b where
  reach_start: "reach a b 0 0 0"
| reach_diag: "reach a b d x y \<Longrightarrow> x < int (length a) \<Longrightarrow> y < int (length b) \<Longrightarrow>
     a ! nat x = b ! nat y \<Longrightarrow> reach a b d (x + 1) (y + 1)"
| reach_del: "reach a b d x y \<Longrightarrow> reach a b (d + 1) (x + 1) y"
| reach_ins: "reach a b d x y \<Longrightarrow> reach a b (d + 1) x (y + 1)"

text \<open>\<open>V a b v k\<close> is the \<open>x\<close> stored for diagonal \<open>k\<close> in the frontier \<open>v\<close>;
  \<open>furthest a b d k x\<close>: \<open>x\<close> is the furthest point on diagonal \<open>k\<close> with \<open>d\<close> moves;
  \<open>terminal a b x k\<close> is the test \<open>x >= n && y >= m\<close> for the point \<open>x\<close> on diagonal \<open>k\<close>.\<close>

definition V :: "string list \<Rightarrow> string list \<Rightarrow> int list \<Rightarrow> int \<Rightarrow> int" where
  "V a b v k = abs_go (v ! nat (int (length b) + int (length a) + k))"

definition furthest :: "string list \<Rightarrow> string list \<Rightarrow> int \<Rightarrow> int \<Rightarrow> int \<Rightarrow> bool" where
  "furthest a b d k x \<longleftrightarrow> reach a b d x (x - k) \<and> (\<forall>x'. reach a b d x' (x' - k) \<longrightarrow> x' \<le> x)"

definition terminal :: "string list \<Rightarrow> string list \<Rightarrow> int \<Rightarrow> int \<Rightarrow> bool" where
  "terminal a b x k \<longleftrightarrow> x \<ge> int (length a) \<and> x - k \<ge> int (length b)"

fun lcs :: "'a list \<Rightarrow> 'a list \<Rightarrow> nat" where
  "lcs [] ys = 0"
| "lcs (x # xs) [] = 0"
| "lcs (x # xs) (y # ys) =
     (if x = y then Suc (lcs xs ys) else max (lcs xs (y # ys)) (lcs (x # xs) ys))"

definition ed :: "'a list \<Rightarrow> 'a list \<Rightarrow> int" where
  "ed xs ys = int (length xs) + int (length ys) - 2 * int (lcs xs ys)"

text \<open>The invariant of the \<open>k\<close> loop in round \<open>d\<close>: the frontier holds the furthest
  points of round \<open>d - 1\<close>, none of them terminal (\<open>kinv\<close>), and the furthest points of
  round \<open>d\<close> on the diagonals below \<open>k\<close>, none of them terminal (\<open>kdone\<close>).\<close>

definition kinv :: "string list \<Rightarrow> string list \<Rightarrow> int \<Rightarrow> int list \<Rightarrow> bool" where
  "kinv a b d v \<longleftrightarrow>
     length v = nat (2 * (int (length b) + int (length a))) \<and>
     (d = 0 \<longrightarrow> V a b v 1 = 0) \<and>
     (\<forall>j. - (d - 1) \<le> j \<and> j \<le> d - 1 \<and> even (d - 1 - j) \<longrightarrow>
          furthest a b (d - 1) j (V a b v j) \<and> \<not> terminal a b (V a b v j) j)"

definition kdone :: "string list \<Rightarrow> string list \<Rightarrow> int \<Rightarrow> int \<Rightarrow> int list \<Rightarrow> bool" where
  "kdone a b d k v \<longleftrightarrow>
     (\<forall>j. - d \<le> j \<and> j < k \<and> even (d - j) \<longrightarrow>
          furthest a b d j (V a b v j) \<and> \<not> terminal a b (V a b v j) j)"

text \<open>The shape of the edits the backtrace adds: the insertion of one unit of \<open>b\<close> at the
  start of a unit of \<open>a\<close> or at the end of the text, or the deletion of one unit of \<open>a\<close>;
  and the ascending order of offsets.\<close>

definition unit_edit :: "string list \<Rightarrow> string list \<Rightarrow> edit \<Rightarrow> bool" where
  "unit_edit a b e \<longleftrightarrow>
     (Length e = 0 \<and> replacement e \<in> set b \<and>
        (\<exists>i. i \<le> length a \<and> Offset e = int (length (concat (take i a))))) \<or>
     (replacement e = [] \<and>
        (\<exists>i. i < length a \<and> Offset e = int (length (concat (take i a))) \<and>
              Length e = int (length (a ! i))))"

definition ascending :: "edit list \<Rightarrow> bool" where
  "ascending es = sorted_wrt (\<lambda>e1 e2. Offset e1 \<le> Offset e2) es"

text \<open>The invariant of \<open>createPatch\<close>: \<open>unrebase h\<close> are the edits of the hunk \<open>h\<close> with the
  hunk's start offset added back; the edits of the closed hunks and of the open hunk, so
  read and in this order, are the edits of the file that the iterator has passed.\<close>

definition unrebase :: "hunk \<Rightarrow> edit list" where
  "unrebase h = map (\<lambda>x. RelativeToOffset x (- startOffset h)) (edits h)"

definition cp_inv :: "edit list \<Rightarrow> string \<Rightarrow> cp_state \<Rightarrow> bool" where
  "cp_inv es key s \<longleftrightarrow>
     iter_edits (iter s) = es \<and> nextIndex (iter s) \<le> length es \<and>
     filename (result s) = key \<and>
     (curState s = HUNK_NOT_STARTED \<longrightarrow> cur_hunk s = None) \<and>
     concat (map unrebase (hunks (result s))) @
       (case cur_hunk s of None \<Rightarrow> [] | Some h \<Rightarrow> unrebase h) =
     take (nextIndex (iter s)) es"

text \<open>A run of untouched lines: the next \<open>j\<close> reads of the reader succeed, and none of the
  lines read is affected by the edit \<open>e\<close> (by no edit when \<open>e\<close> is \<open>None\<close>); \<open>add_lines h rd j\<close>
  is the hunk \<open>h\<close> with these \<open>j\<close> lines added.\<close>

definition untouched_run :: "lineRdr \<Rightarrow> edit option \<Rightarrow> nat \<Rightarrow> bool" where
  "untouched_run rd e j \<longleftrightarrow>
     (\<forall>i<j. err ((readLine ^^ Suc i) rd) = None \<and>
            \<not> currentLineIsAffectedBy ((readLine ^^ Suc i) rd) e)"

definition add_lines :: "hunk \<Rightarrow> lineRdr \<Rightarrow> nat \<Rightarrow> hunk" where
  "add_lines h rd j = foldl (\<lambda>h i. addLine h (line ((readLine ^^ Suc i) rd))) h [0..<j]"



declare snake.simps [simp del] k_loop.simps [simp del] d_loop.simps [simp del]
  offsetOfString_loop.simps [simp del] constructEditSet_loop.simps [simp del]
  digits.simps [simp del] emit_edits.simps [simp del] addAllEdits_loop.simps [simp del]
  createPatch_loop.simps [simp del]

lemmas Diff_eval_defs =
  Diff_def store_def at_def d_loop.simps k_loop.simps diag_step_def choose_move_def
  snake.simps abs_go_def constructEditSet_def constructEditSet_loop.simps backtrace_step_def
  offsetOfString_def
  offsetOfString_loop.simps slice1_def editSet_Add_def file_edits_def NewEditSet_def Let_def

section \<open>Correctness of the search\<close>

lemma reach_bounds:
  "reach a b d x y \<Longrightarrow> 0 \<le> x \<and> 0 \<le> y \<and> 0 \<le> d \<and> x - y \<le> d \<and> y - x \<le> d \<and> even (d - (x - y))"
  by (induction rule: reach.induct) auto

lemma snake_result:
  "0 \<le> x \<Longrightarrow> 0 \<le> y \<Longrightarrow>
   \<exists>x'. snake a b x y = Inr (x', y + (x' - x)) \<and> x \<le> x' \<and>
        \<not> (x' < int (length a) \<and> y + (x' - x) < int (length b) \<and> a ! nat x' = b ! nat (y + (x' - x))) \<and>
        (reach a b d x y \<longrightarrow> reach a b d x' (y + (x' - x)))"
proof (induction a b x y rule: snake.induct)
  case (1 a b x y)
  show ?case
  proof (cases "x < int (length a) \<and> y < int (length b) \<and> a ! nat x = b ! nat y")
    case True
    with 1 obtain x' where x': "snake a b (x + 1) (y + 1) = Inr (x', (y + 1) + (x' - (x + 1)))"
        "x + 1 \<le> x'"
        "\<not> (x' < int (length a) \<and> (y + 1) + (x' - (x + 1)) < int (length b) \<and>
            a ! nat x' = b ! nat ((y + 1) + (x' - (x + 1))))"
        "reach a b d (x + 1) (y + 1) \<longrightarrow> reach a b d x' ((y + 1) + (x' - (x + 1)))"
      by (fastforce simp: at_def)
    have eq: "(y + 1) + (x' - (x + 1)) = y + (x' - x)"
      by simp
    have "snake a b x y = snake a b (x + 1) (y + 1)"
      using True 1(2,3) by (subst snake.simps) (simp add: at_def)
    moreover have "reach a b d x y \<longrightarrow> reach a b d (x + 1) (y + 1)"
      using True by (auto intro: reach_diag)
    ultimately show ?thesis
      using x' unfolding eq by (intro exI[of _ x']) auto
  next
    case False
    then have "snake a b x y = Inr (x, y)"
      using 1(2,3) by (subst snake.simps) (auto simp: at_def)
    with False show ?thesis by (intro exI[of _ x]) auto
  qed
qed


lemma furthest_upper:
  assumes h1: "\<And>x'. reach a b (d - 1) x' (x' - (k - 1)) \<Longrightarrow> x' + 1 \<le> x0"
    and h2: "\<And>x'. reach a b (d - 1) x' (x' - (k + 1)) \<Longrightarrow> x' \<le> x0"
    and x0: "x0 \<le> x" "0 \<le> x"
    and stop: "\<not> (x < int (length a) \<and> x - k < int (length b) \<and> a ! nat x = b ! nat (x - k))"
    and r: "reach a b d' x' y'"
  shows "d' = d \<Longrightarrow> x' - y' = k \<Longrightarrow> x' \<le> x"
  using r
proof (induction rule: reach.induct)
  case reach_start
  then show ?case using x0 by simp
next
  case (reach_diag d' x' y')
  then have le: "x' \<le> x" by simp
  show ?case
  proof (cases "x' = x")
    case True
    with reach_diag stop show ?thesis
      by (metis add_diff_cancel_right' diff_diff_eq2 diff_add_cancel add.commute)
  next
    case False
    with le show ?thesis by simp
  qed
next
  case (reach_del d' x' y')
  then have "reach a b (d - 1) x' (x' - (k - 1))"
    by (metis add_diff_cancel_right' diff_diff_eq2 diff_add_cancel add.commute)
  from h1[OF this] x0 show ?case by simp
next
  case (reach_ins d' x' y')
  then have "reach a b (d - 1) x' (x' - (k + 1))"
    by (metis add_diff_cancel_right' diff_diff_eq2 diff_add_cancel add.commute diff_diff_eq)
  from h2[OF this] x0 show ?case by simp
qed


lemma abs_go_nonneg [simp]: "0 \<le> abs_go x"
  by (simp add: abs_go_def)

lemma abs_go_of_nonneg: "0 \<le> x \<Longrightarrow> abs_go x = x" "0 \<le> x \<Longrightarrow> abs_go (- x) = x"
  by (simp_all add: abs_go_def)

lemma furthestD: "furthest a b d k x \<Longrightarrow> reach a b d x (x - k)"
  "furthest a b d k x \<Longrightarrow> reach a b d x' (x' - k) \<Longrightarrow> x' \<le> x"
  by (auto simp: furthest_def)

lemma at_in_range: "0 \<le> i \<Longrightarrow> i < int (length xs) \<Longrightarrow> at xs i = Inr (xs ! nat i)"
  by (simp add: at_def)

lemma choose_move_ok:
  assumes inv: "kinv a b d v" and d: "0 \<le> d" "d \<le> int (length b) + int (length a)"
    and k: "- d \<le> k" "k \<le> d" "even (d - k)"
    and ne: "a \<noteq> []" "b \<noteq> []"
  shows "\<exists>x0 vert. choose_move (int (length b) + int (length a)) d k v = Inr (x0, vert) \<and>
           reach a b d x0 (x0 - k) \<and>
           (\<forall>x'. reach a b (d - 1) x' (x' - (k - 1)) \<longrightarrow> x' + 1 \<le> x0) \<and>
           (\<forall>x'. reach a b (d - 1) x' (x' - (k + 1)) \<longrightarrow> x' \<le> x0)"
proof -
  let ?off = "int (length b) + int (length a)"
  from ne have off: "2 \<le> ?off"
    by (cases a; cases b) auto
  from inv have len: "int (length v) = 2 * ?off"
    by (simp add: kinv_def)
  have no_prev: "\<not> reach a b (d - 1) x' (x' - j)" if "j < - (d - 1) \<or> d - 1 < j" for x' j
    using reach_bounds[of a b "d - 1" x' "x' - j"] that by auto
  show ?thesis
  proof (cases "d = 0")
    case True
    with k have k0: "k = 0" by simp
    from inv True have "V a b v 1 = 0" by (simp add: kinv_def)
    then have "choose_move ?off d k v = Inr (0, False)"
      using True k0 off len by (simp add: choose_move_def at_def V_def)
    moreover have "reach a b d 0 (0 - k)"
      using True k0 by (simp add: reach_start)
    moreover have "\<not> reach a b (d - 1) x' y'" for x' y'
      using reach_bounds[of a b "d - 1" x' y'] True by auto
    ultimately show ?thesis
      by auto
  next
    case False
    with d have d1: "1 \<le> d" by simp
    have fur: "furthest a b (d - 1) j (V a b v j)" if "- (d - 1) \<le> j" "j \<le> d - 1" "even (d - 1 - j)" for j
      using inv that by (simp add: kinv_def)
    have kd2: "k + 2 \<le> d" if "k \<noteq> d"
      using that k by presburger
    have km2: "- d + 2 \<le> k" if "k \<noteq> - d"
      using that k by presburger
    have rdp: "at v (?off + k + 1) = Inr (v ! nat (?off + (k + 1)))" if "k \<noteq> d"
      using kd2[OF that] k d len by (simp add: at_def add.assoc)
    have rl: "at v (?off + k - 1) = Inr (v ! nat (?off + (k - 1)))" if "k \<noteq> - d"
      using km2[OF that] k d len by (simp add: at_def algebra_simps)
    show ?thesis
    proof (cases "k = - d")
      case True
      have f: "furthest a b (d - 1) (k + 1) (V a b v (k + 1))"
        using True d1 k by (intro fur) auto
      have "choose_move ?off d k v = Inr (V a b v (k + 1), False)"
        using True rdp d1 by (simp add: choose_move_def V_def)
      moreover have "reach a b d (V a b v (k + 1)) (V a b v (k + 1) - k)"
        using reach_ins[OF furthestD(1)[OF f]] by (simp add: algebra_simps)
      moreover have "\<not> reach a b (d - 1) x' (x' - (k - 1))" for x'
        using True by (intro no_prev) auto
      ultimately show ?thesis
        using furthestD(2)[OF f] by auto
    next
      case nd: False
      have fl: "furthest a b (d - 1) (k - 1) (V a b v (k - 1))"
        using km2[OF nd] d1 k by (intro fur) auto
      show ?thesis
      proof (cases "k = d")
        case True
        have "choose_move ?off d k v = Inr (V a b v (k - 1) + 1, True)"
          using True nd rl d1 by (simp add: choose_move_def V_def)
        moreover have "reach a b d (V a b v (k - 1) + 1) (V a b v (k - 1) + 1 - k)"
          using reach_del[OF furthestD(1)[OF fl]] by (simp add: algebra_simps)
        moreover have "\<not> reach a b (d - 1) x' (x' - (k + 1))" for x'
          using True by (intro no_prev) auto
        ultimately show ?thesis
          using furthestD(2)[OF fl] by auto
      next
        case False
        have fr: "furthest a b (d - 1) (k + 1) (V a b v (k + 1))"
          using kd2[OF False] d1 k by (intro fur) auto
        have cm: "choose_move ?off d k v =
                (if V a b v (k - 1) < V a b v (k + 1) then Inr (V a b v (k + 1), False)
                 else Inr (V a b v (k - 1) + 1, True))"
          using False nd rl rdp by (simp add: choose_move_def V_def)
        have r1: "reach a b d (V a b v (k + 1)) (V a b v (k + 1) - k)"
          using reach_ins[OF furthestD(1)[OF fr]] by (simp add: algebra_simps)
        have r2: "reach a b d (V a b v (k - 1) + 1) (V a b v (k - 1) + 1 - k)"
          using reach_del[OF furthestD(1)[OF fl]] by (simp add: algebra_simps)
        show ?thesis
          using cm r1 r2 furthestD(2)[OF fl] furthestD(2)[OF fr] by (auto; force)
      qed
    qed
  qed
qed


lemma diag_step_ok:
  assumes inv: "kinv a b d v" and d: "0 \<le> d" "d \<le> int (length b) + int (length a)"
    and k: "- d \<le> k" "k \<le> d" "even (d - k)" "k < int (length b) + int (length a)"
    and ne: "a \<noteq> []" "b \<noteq> []"
  shows "\<exists>x w. diag_step a b d k v =
             Inr (x, x - k, v[nat (int (length b) + int (length a) + k) := w]) \<and>
           abs_go w = x \<and> furthest a b d k x"
proof -
  let ?off = "int (length b) + int (length a)"
  from choose_move_ok[OF inv d k(1,2,3) ne] obtain x0 vert where
    cm: "choose_move ?off d k v = Inr (x0, vert)" and r0: "reach a b d x0 (x0 - k)"
    and h1: "\<And>x'. reach a b (d - 1) x' (x' - (k - 1)) \<Longrightarrow> x' + 1 \<le> x0"
    and h2: "\<And>x'. reach a b (d - 1) x' (x' - (k + 1)) \<Longrightarrow> x' \<le> x0"
    by blast
  from reach_bounds[OF r0] have pos: "0 \<le> x0" "0 \<le> x0 - k"
    by auto
  from snake_result[OF pos, of a b d] r0 obtain x where
    sn: "snake a b x0 (x0 - k) = Inr (x, x0 - k + (x - x0))" and le: "x0 \<le> x"
    and stop: "\<not> (x < int (length a) \<and> x0 - k + (x - x0) < int (length b) \<and>
                 a ! nat x = b ! nat (x0 - k + (x - x0)))"
    and r: "reach a b d x (x0 - k + (x - x0))"
    by blast
  have eq: "x0 - k + (x - x0) = x - k"
    by simp
  from inv have len: "int (length v) = 2 * ?off"
    by (simp add: kinv_def)
  have st: "store v (?off + k) (if vert then - x else x) =
              Inr (v[nat (?off + k) := (if vert then - x else x)])"
    using k d len by (simp add: store_def)
  have x_pos: "0 \<le> x"
    using pos le by simp
  have "diag_step a b d k v = Inr (x, x - k, v[nat (?off + k) := (if vert then - x else x)])"
    using cm sn st unfolding eq by (simp add: diag_step_def)
  moreover have "abs_go (if vert then - x else x) = x"
    using x_pos by (simp add: abs_go_of_nonneg)
  moreover have "furthest a b d k x"
    unfolding furthest_def
  proof (intro conjI allI impI)
    show "reach a b d x (x - k)"
      using r unfolding eq .
  next
    fix x' assume "reach a b d x' (x' - k)"
    from furthest_upper[OF h1 h2 le x_pos stop[unfolded eq] this] show "x' \<le> x"
      by simp
  qed
  ultimately show ?thesis
    by blast
qed

lemma V_update:
  assumes "0 \<le> int (length b) + int (length a) + k" "0 \<le> int (length b) + int (length a) + j"
    and "nat (int (length b) + int (length a) + k) < length v"
  shows "V a b (v[nat (int (length b) + int (length a) + k) := w]) j =
           (if j = k then abs_go w else V a b v j)"
  using assms by (auto simp: V_def nat_eq_iff)

lemma reach_corner: "reach a b (int (length a) + int (length b)) (int (length a)) (int (length b))"
proof -
  have dels: "reach a b (int i) (int i) 0" for i :: nat
  proof (induction i)
    case 0
    show ?case by (simp add: reach_start)
  next
    case (Suc i)
    from reach_del[OF Suc] show ?case by (simp add: add.commute)
  qed
  have "reach a b (int i + int j) (int i) (int j)" for i j :: nat
  proof (induction j)
    case 0
    show ?case using dels by simp
  next
    case (Suc j)
    from reach_ins[OF Suc] show ?case by (simp add: add.commute add.left_commute)
  qed
  then show ?thesis .
qed

lemma round_max_terminal:
  assumes f: "furthest a b (int (length b) + int (length a)) (int (length a) - int (length b)) x"
  shows "terminal a b x (int (length a) - int (length b))"
proof -
  have "reach a b (int (length b) + int (length a)) (int (length a))
          (int (length a) - (int (length a) - int (length b)))"
    using reach_corner[of a b] by (simp add: add.commute)
  from furthestD(2)[OF f this] show ?thesis
    by (simp add: terminal_def)
qed


lemma k_loop_ok:
  assumes "kinv a b d v" "kdone a b d k v" "0 \<le> d" "d \<le> int (length b) + int (length a)"
    "- d \<le> k" "k \<le> d + 2" "even (d - k)" "a \<noteq> []" "b \<noteq> []"
  shows "\<exists>v' fin. k_loop a b d k v = Inr (fin, v') \<and> kinv a b d v' \<and>
           (if fin
            then \<exists>k'. k \<le> k' \<and> k' \<le> d \<and> even (d - k') \<and> kdone a b d k' v' \<and>
                   furthest a b d k' (V a b v' k') \<and> terminal a b (V a b v' k') k'
            else kdone a b d (d + 2) v')"
  using assms
proof (induction a b d k v rule: k_loop.induct)
  case (1 a b d k v)
  let ?off = "int (length b) + int (length a)"
  note inv = "1.prems"(1) and dn = "1.prems"(2) and d = "1.prems"(3,4)
    and k = "1.prems"(5,6,7) and ne = "1.prems"(8,9)
  show ?case
  proof (cases "k \<le> d")
    case False
    with k have kd: "k = d + 2"
      by presburger
    have "k_loop a b d k v = Inr (False, v)"
      using False by (subst k_loop.simps) simp
    with kd inv dn show ?thesis
      by (intro exI[of _ v] exI[of _ False]) simp
  next
    case True
    from ne have m_pos: "0 < int (length b)" and n_pos: "0 < int (length a)"
      by auto
    have k_lt: "k < ?off"
    proof (rule ccontr)
      assume "\<not> k < ?off"
      with True d have kd: "k = ?off" "d = ?off"
        by auto
      have "furthest a b d (int (length a) - int (length b)) (V a b v (int (length a) - int (length b)))
            \<and> \<not> terminal a b (V a b v (int (length a) - int (length b))) (int (length a) - int (length b))"
        using dn[unfolded kdone_def, rule_format, of "int (length a) - int (length b)"]
          m_pos n_pos kd by auto
      with round_max_terminal[of a b] kd show False
        by auto
    qed
    from diag_step_ok[OF inv d k(1) True k(3) k_lt ne] obtain x w where
      ds: "diag_step a b d k v = Inr (x, x - k, v[nat (?off + k) := w])"
      and w: "abs_go w = x" and fx: "furthest a b d k x"
      by blast
    let ?v' = "v[nat (?off + k) := w]"
    from inv have len: "int (length v) = 2 * ?off"
      by (simp add: kinv_def)
    have Vv': "V a b ?v' j = (if j = k then x else V a b v j)" if "- ?off \<le> j" for j
      using V_update[of b a k j v w] that k d k_lt len w by simp
    have inv': "kinv a b d ?v'"
      unfolding kinv_def
    proof (intro conjI impI allI)
      show "length ?v' = nat (2 * ?off)"
        using len by simp
    next
      assume "d = 0"
      with k True have "k = 0" by simp
      with inv \<open>d = 0\<close> show "V a b ?v' 1 = 0"
        by (subst Vv') (auto simp: kinv_def)
    next
      fix j assume j: "- (d - 1) \<le> j \<and> j \<le> d - 1 \<and> even (d - 1 - j)"
      with k have "j \<noteq> k" by presburger
      moreover from j d have "- ?off \<le> j" by simp
      ultimately have "V a b ?v' j = V a b v j"
        by (simp add: Vv')
      with inv j show "furthest a b (d - 1) j (V a b ?v' j)" "\<not> terminal a b (V a b ?v' j) j"
        by (simp_all add: kinv_def)
    qed
    have dn': "kdone a b d k ?v'"
      unfolding kdone_def
    proof (intro conjI impI allI)
      fix j assume j: "- d \<le> j \<and> j < k \<and> even (d - j)"
      with d have "V a b ?v' j = V a b v j"
        by (subst Vv') auto
      with dn j show "furthest a b d j (V a b ?v' j)" "\<not> terminal a b (V a b ?v' j) j"
        by (simp_all add: kdone_def)
    qed
    have Vk: "V a b ?v' k = x"
      using k d by (subst Vv') auto
    show ?thesis
    proof (cases "x \<ge> int (length a) \<and> x - k \<ge> int (length b)")
      case tm: True
      then have "k_loop a b d k v = Inr (True, ?v')"
        using True ds by (subst k_loop.simps) simp
      moreover have "terminal a b (V a b ?v' k) k"
        using tm Vk by (simp add: terminal_def)
      ultimately show ?thesis
        using inv' dn' fx Vk True k by auto
    next
      case nterm: False
      then have kl: "k_loop a b d k v = k_loop a b d (k + 2) ?v'"
        using True ds by (subst k_loop.simps) auto
      have dn2: "kdone a b d (k + 2) ?v'"
        unfolding kdone_def
      proof (intro allI impI)
        fix j assume j: "- d \<le> j \<and> j < k + 2 \<and> even (d - j)"
        with k have "j < k \<or> j = k" by presburger
        then show "furthest a b d j (V a b ?v' j) \<and> \<not> terminal a b (V a b ?v' j) j"
        proof
          assume "j < k"
          with dn' j show ?thesis by (simp add: kdone_def)
        next
          assume "j = k"
          with fx Vk nterm show ?thesis by (simp add: terminal_def)
        qed
      qed
      have "\<exists>v' fin. k_loop a b d (k + 2) ?v' = Inr (fin, v') \<and> kinv a b d v' \<and>
           (if fin
            then \<exists>k'. k + 2 \<le> k' \<and> k' \<le> d \<and> even (d - k') \<and> kdone a b d k' v' \<and>
                   furthest a b d k' (V a b v' k') \<and> terminal a b (V a b v' k') k'
            else kdone a b d (d + 2) v')"
      proof (rule "1.IH"[of "(x, x - k, ?v')" x "(x - k, ?v')" "x - k" ?v'])
        show "k \<le> d" by (rule True)
        show "diag_step a b d k v = Inr (x, x - k, ?v')" by (rule ds)
        show "\<not> (int (length a) \<le> x \<and> int (length b) \<le> x - k)" by (rule nterm)
        show "kinv a b d ?v'" by (rule inv')
        show "kdone a b d (k + 2) ?v'" by (rule dn2)
        show "k + 2 \<le> d + 2" using True by simp
        show "even (d - (k + 2))" using k by simp
        show "- d \<le> k + 2" using k by simp
      qed (use d ne in simp_all)
      then obtain v' fin where res: "k_loop a b d (k + 2) ?v' = Inr (fin, v')" "kinv a b d v'"
        and fin: "if fin
            then \<exists>k'. k + 2 \<le> k' \<and> k' \<le> d \<and> even (d - k') \<and> kdone a b d k' v' \<and>
                   furthest a b d k' (V a b v' k') \<and> terminal a b (V a b v' k') k'
            else kdone a b d (d + 2) v'"
        by blast
      show ?thesis
      proof (cases fin)
        case True
        with fin obtain k' where "k + 2 \<le> k'" "k' \<le> d" "even (d - k')" "kdone a b d k' v'"
          "furthest a b d k' (V a b v' k')" "terminal a b (V a b v' k') k'"
          by auto
        then have "\<exists>k'. k \<le> k' \<and> k' \<le> d \<and> even (d - k') \<and> kdone a b d k' v' \<and>
                   furthest a b d k' (V a b v' k') \<and> terminal a b (V a b v' k') k'"
          by (intro exI[of _ k']) simp
        with res True show ?thesis
          unfolding kl by (intro exI[of _ v'] exI[of _ True]) simp
      next
        case False
        with fin res show ?thesis
          unfolding kl by (intro exI[of _ v'] exI[of _ False]) simp
      qed
    qed
  qed
qed


lemma d_loop_ok:
  assumes "kinv a b d v" "0 \<le> d" "d \<le> int (length b) + int (length a) + 1"
    "int (length vs) = d" "\<forall>i. 0 \<le> i \<and> i < d \<longrightarrow> kdone a b i (i + 2) (vs ! nat i)"
    "a \<noteq> []" "b \<noteq> []"
  shows "\<exists>vs' D k. d_loop a b d v vs = Inr vs' \<and> d \<le> D \<and> D \<le> int (length b) + int (length a) \<and>
           int (length vs') = D + 1 \<and>
           (\<forall>i. 0 \<le> i \<and> i < D \<longrightarrow> kdone a b i (i + 2) (vs' ! nat i)) \<and>
           - D \<le> k \<and> k \<le> D \<and> even (D - k) \<and> kinv a b D (last vs') \<and>
           kdone a b D k (last vs') \<and> furthest a b D k (V a b (last vs') k) \<and>
           terminal a b (V a b (last vs') k) k"
  using assms
proof (induction a b d v vs rule: d_loop.induct)
  case (1 a b d v vs)
  let ?off = "int (length b) + int (length a)"
  note inv = "1.prems"(1) and d = "1.prems"(2,3) and len = "1.prems"(4)
    and snaps = "1.prems"(5) and ne = "1.prems"(6,7)
  from ne have m_pos: "0 < int (length b)" and n_pos: "0 < int (length a)"
    by auto
  have d_le: "d \<le> ?off"
  proof (rule ccontr)
    assume "\<not> d \<le> ?off"
    with d have dd: "d = ?off + 1" by simp
    have "furthest a b (d - 1) (int (length a) - int (length b)) (V a b v (int (length a) - int (length b)))
            \<and> \<not> terminal a b (V a b v (int (length a) - int (length b))) (int (length a) - int (length b))"
      using inv[unfolded kinv_def, THEN conjunct2, THEN conjunct2, rule_format,
                of "int (length a) - int (length b)"] m_pos n_pos dd by auto
    with round_max_terminal[of a b] dd show False
      by auto
  qed
  have "kdone a b d (- d) v"
    by (auto simp: kdone_def)
  from k_loop_ok[OF inv this d(1) d_le _ _ _ ne] d
  obtain v' fin where kl: "k_loop a b d (- d) v = Inr (fin, v')" and inv': "kinv a b d v'"
    and fin: "if fin
            then \<exists>k'. - d \<le> k' \<and> k' \<le> d \<and> even (d - k') \<and> kdone a b d k' v' \<and>
                   furthest a b d k' (V a b v' k') \<and> terminal a b (V a b v' k') k'
            else kdone a b d (d + 2) v'"
    by auto
  have nth_app: "(vs @ [v']) ! nat i = (if i = d then v' else vs ! nat i)" if "0 \<le> i" "i \<le> d" for i
    using that len by (auto simp: nth_append)
  show ?case
  proof (cases fin)
    case True
    with fin obtain k' where k': "- d \<le> k'" "k' \<le> d" "even (d - k')" "kdone a b d k' v'"
       "furthest a b d k' (V a b v' k')" "terminal a b (V a b v' k') k'"
      by auto
    have dl: "d_loop a b d v vs = Inr (vs @ [v'])"
      using kl True d_le by (subst d_loop.simps) simp
    show ?thesis
      unfolding dl
      using k' inv' d_le len snaps
      by (intro exI[of _ "vs @ [v']"] exI[of _ d] exI[of _ k']) (simp add: nth_app)
  next
    case False
    with fin have dn: "kdone a b d (d + 2) v'" by simp
    have dl: "d_loop a b d v vs = d_loop a b (d + 1) v' (vs @ [v'])"
      using kl False d_le by (subst d_loop.simps) simp
    have inv1: "kinv a b (d + 1) v'"
      using inv' dn d by (auto simp: kinv_def kdone_def)
    have "\<exists>vs' D k. d_loop a b (d + 1) v' (vs @ [v']) = Inr vs' \<and> d + 1 \<le> D \<and> D \<le> ?off \<and>
           int (length vs') = D + 1 \<and>
           (\<forall>i. 0 \<le> i \<and> i < D \<longrightarrow> kdone a b i (i + 2) (vs' ! nat i)) \<and>
           - D \<le> k \<and> k \<le> D \<and> even (D - k) \<and> kinv a b D (last vs') \<and>
           kdone a b D k (last vs') \<and> furthest a b D k (V a b (last vs') k) \<and>
           terminal a b (V a b (last vs') k) k"
    proof (rule "1.IH"[of "(False, v')" False v'])
      show "d \<le> ?off" by (rule d_le)
      show "k_loop a b d (- d) v = Inr (False, v')" using kl False by simp
      show "kinv a b (d + 1) v'" by (rule inv1)
      show "0 \<le> d + 1" using d by simp
      show "d + 1 \<le> ?off + 1" using d_le by simp
      show "int (length (vs @ [v'])) = d + 1" using len by simp
      show "\<forall>i. 0 \<le> i \<and> i < d + 1 \<longrightarrow> kdone a b i (i + 2) ((vs @ [v']) ! nat i)"
        using snaps dn by (auto simp: nth_app)
    qed (use ne in simp_all)
    then show ?thesis
      unfolding dl by (elim exE conjE) (intro exI conjI; (assumption | simp))
  qed
qed


lemma lcs_Nil2 [simp]: "lcs xs [] = 0"
  by (cases xs) simp_all

lemma lcs_bounds:
  "lcs xs ys \<le> lcs (x # xs) ys \<and> lcs xs ys \<le> lcs xs (y # ys) \<and>
   lcs (x # xs) ys \<le> Suc (lcs xs ys) \<and> lcs xs (y # ys) \<le> Suc (lcs xs ys)"
proof (induction "length xs + length ys" arbitrary: xs ys x y rule: less_induct)
  case less
  have m1: "lcs xs ys \<le> lcs (x # xs) ys" for x
  proof (cases ys)
    case Nil
    then show ?thesis by simp
  next
    case (Cons y' ys')
    with less[of xs ys' x y'] show ?thesis by auto
  qed
  have m2: "lcs xs ys \<le> lcs xs (y # ys)" for y
  proof (cases xs)
    case Nil
    then show ?thesis by simp
  next
    case (Cons x' xs')
    with less[of xs' ys x' y] show ?thesis by auto
  qed
  have s1: "lcs (x # xs) ys \<le> Suc (lcs xs ys)" for x
  proof (cases ys)
    case Nil
    then show ?thesis by simp
  next
    case (Cons y' ys')
    with less[of xs ys' x y'] show ?thesis by auto
  qed
  have s2: "lcs xs (y # ys) \<le> Suc (lcs xs ys)" for y
  proof (cases xs)
    case Nil
    then show ?thesis by simp
  next
    case (Cons x' xs')
    with less[of xs' ys x' y] show ?thesis by auto
  qed
  from m1 m2 s1 s2 show ?case by blast
qed


lemma ed_Nil [simp]: "ed [] ys = int (length ys)" "ed xs [] = int (length xs)"
  by (simp_all add: ed_def)

lemma ed_Cons_same [simp]: "ed (x # xs) (x # ys) = ed xs ys"
  by (simp add: ed_def)

lemma ed_step: "ed (x # xs) ys \<le> 1 + ed xs ys" "ed xs (y # ys) \<le> 1 + ed xs ys"
  using lcs_bounds[of xs ys x y] by (simp_all add: ed_def)

lemma ed_drop_step:
  "ed (drop (nat x) a) (drop (nat y) b) \<le> 1 + ed (drop (nat (x + 1)) a) (drop (nat y) b)"
  "ed (drop (nat x) a) (drop (nat y) b) \<le> 1 + ed (drop (nat x) a) (drop (nat (y + 1)) b)"
  if "0 \<le> x" "0 \<le> y"
proof -
  have nx: "nat (x + 1) = Suc (nat x)" and ny: "nat (y + 1) = Suc (nat y)"
    using that by simp_all
  show "ed (drop (nat x) a) (drop (nat y) b) \<le> 1 + ed (drop (nat (x + 1)) a) (drop (nat y) b)"
  proof (cases "nat x < length a")
    case True
    then show ?thesis
      unfolding nx using ed_step(1)[of "a ! nat x" "drop (Suc (nat x)) a" "drop (nat y) b"]
      by (simp add: Cons_nth_drop_Suc)
  next
    case False
    then show ?thesis unfolding nx by simp
  qed
  show "ed (drop (nat x) a) (drop (nat y) b) \<le> 1 + ed (drop (nat x) a) (drop (nat (y + 1)) b)"
  proof (cases "nat y < length b")
    case True
    then show ?thesis
      unfolding ny using ed_step(2)[of "drop (nat x) a" "b ! nat y" "drop (Suc (nat y)) b"]
      by (simp add: Cons_nth_drop_Suc)
  next
    case False
    then show ?thesis unfolding ny by simp
  qed
qed

lemma drop_int_Cons:
  "0 \<le> x \<Longrightarrow> x < int (length a) \<Longrightarrow> drop (nat x) a = a ! nat x # drop (nat (x + 1)) a"
  by (simp add: Cons_nth_drop_Suc nat_add_distrib)

lemma reach_potential:
  "reach a b d x y \<Longrightarrow> ed a b \<le> d + ed (drop (nat x) a) (drop (nat y) b)"
proof (induction rule: reach.induct)
  case reach_start
  show ?case by simp
next
  case (reach_diag d x y)
  from reach_bounds[OF reach_diag(1)] have pos: "0 \<le> x" "0 \<le> y" by auto
  with reach_diag drop_int_Cons[of x a] drop_int_Cons[of y b]
  have "drop (nat x) a = a ! nat x # drop (nat (x + 1)) a"
    "drop (nat y) b = a ! nat x # drop (nat (y + 1)) b"
    by simp_all
  with reach_diag show ?case by simp
next
  case (reach_del d x y)
  from reach_bounds[OF reach_del(1)] have pos: "0 \<le> x" "0 \<le> y" by auto
  from ed_drop_step(1)[OF pos, of a b] reach_del show ?case by simp
next
  case (reach_ins d x y)
  from reach_bounds[OF reach_ins(1)] have pos: "0 \<le> x" "0 \<le> y" by auto
  from ed_drop_step(2)[OF pos, of a b] reach_ins show ?case by simp
qed

lemma reach_dels: "reach a b d x y \<Longrightarrow> reach a b (d + int i) (x + int i) y"
proof (induction i)
  case 0
  then show ?case by simp
next
  case (Suc i)
  from reach_del[OF Suc.IH[OF Suc.prems]] show ?case by (simp add: algebra_simps)
qed

lemma reach_inss: "reach a b d x y \<Longrightarrow> reach a b (d + int i) x (y + int i)"
proof (induction i)
  case 0
  then show ?case by simp
next
  case (Suc i)
  from reach_ins[OF Suc.IH[OF Suc.prems]] show ?case by (simp add: algebra_simps)
qed

lemma reach_optimal:
  "xs = drop (nat x) a \<Longrightarrow> ys = drop (nat y) b \<Longrightarrow> reach a b d x y \<Longrightarrow>
   x \<le> int (length a) \<Longrightarrow> y \<le> int (length b) \<Longrightarrow>
   reach a b (d + ed xs ys) (int (length a)) (int (length b))"
proof (induction xs ys arbitrary: x y d rule: lcs.induct)
  case (1 ys)
  from reach_bounds[OF 1(3)] have pos: "0 \<le> x" "0 \<le> y" by auto
  from 1 pos have x: "x = int (length a)" by simp
  from 1 pos have "int (length ys) = int (length b) - y" by simp
  with reach_inss[OF 1(3), of "length ys"] x show ?case by simp
next
  case (2 x' xs)
  from reach_bounds[OF 2(3)] have pos: "0 \<le> x" "0 \<le> y" by auto
  from 2 pos have y: "y = int (length b)" by simp
  from 2 pos have "int (length (x' # xs)) = int (length a) - x" by simp
  with reach_dels[OF 2(3), of "length (x' # xs)"] y show ?case by simp
next
  case (3 x' xs y' ys)
  from reach_bounds[OF 3(6)] have pos: "0 \<le> x" "0 \<le> y" by auto
  from 3(4) have xlt: "nat x < length a"
    by (metis drop_all list.distinct(1) not_le)
  from 3(5) have ylt: "nat y < length b"
    by (metis drop_all list.distinct(1) not_le)
  from 3(4) xlt have ax: "a ! nat x = x'" "xs = drop (nat (x + 1)) a"
    using pos drop_int_Cons[of x a] by simp_all
  from 3(5) ylt have by': "b ! nat y = y'" "ys = drop (nat (y + 1)) b"
    using pos drop_int_Cons[of y b] by simp_all
  have bnd: "x + 1 \<le> int (length a)" "y + 1 \<le> int (length b)" "x < int (length a)" "y < int (length b)"
    using xlt ylt pos by auto
  show ?case
  proof (cases "x' = y'")
    case True
    have "reach a b d (x + 1) (y + 1)"
      using 3(6) bnd ax by' True by (intro reach_diag) auto
    from "3.IH"(1)[OF True ax(2) by'(2) this bnd(1,2)] True show ?thesis
      by simp
  next
    case False
    show ?thesis
    proof (cases "lcs xs (y' # ys) \<ge> lcs (x' # xs) ys")
      case True
      with False have e: "ed (x' # xs) (y' # ys) = 1 + ed xs (y' # ys)"
        by (simp add: ed_def max_def)
      from "3.IH"(2)[OF False ax(2) 3(5) reach_del[OF 3(6)] bnd(1) 3(8)] show ?thesis
        unfolding e by (simp add: algebra_simps)
    next
      case ge: False
      with False have e: "ed (x' # xs) (y' # ys) = 1 + ed (x' # xs) ys"
        by (simp add: ed_def max_def)
      from "3.IH"(3)[OF False 3(4) by'(2) reach_ins[OF 3(6)] 3(7) bnd(2)] show ?thesis
        unfolding e by (simp add: algebra_simps)
    qed
  qed
qed

lemma reach_clamp:
  "reach a b d x y \<Longrightarrow>
   \<exists>d'. reach a b d' (min x (int (length a))) (min y (int (length b))) \<and>
        d' + (x - min x (int (length a))) + (y - min y (int (length b))) \<le> d"
proof (induction rule: reach.induct)
  case reach_start
  have "reach a b 0 (min 0 (int (length a))) (min 0 (int (length b)))"
    by (simp add: reach.reach_start)
  then show ?case by (intro exI[of _ 0]) simp
next
  case (reach_diag d x y)
  then obtain d' where d': "reach a b d' (min x (int (length a))) (min y (int (length b)))"
    "d' + (x - min x (int (length a))) + (y - min y (int (length b))) \<le> d"
    by blast
  from reach_diag(2,3) have mn: "min x (int (length a)) = x" "min y (int (length b)) = y"
    "min (x + 1) (int (length a)) = x + 1" "min (y + 1) (int (length b)) = y + 1"
    by simp_all
  from d' reach_diag(2,3,4) have "reach a b d' (x + 1) (y + 1)"
    unfolding mn by (intro reach.reach_diag)
  with d' show ?case
    unfolding mn by (intro exI[of _ d']) simp
next
  case (reach_del d x y)
  then obtain d' where d': "reach a b d' (min x (int (length a))) (min y (int (length b)))"
    "d' + (x - min x (int (length a))) + (y - min y (int (length b))) \<le> d"
    by blast
  show ?case
  proof (cases "x < int (length a)")
    case True
    then have mn: "min x (int (length a)) = x" "min (x + 1) (int (length a)) = x + 1"
      by simp_all
    from reach.reach_del[OF d'(1)] d'(2) show ?thesis
      unfolding mn by (intro exI[of _ "d' + 1"]) simp
  next
    case False
    then have mn: "min x (int (length a)) = int (length a)"
      "min (x + 1) (int (length a)) = int (length a)"
      by simp_all
    from d' show ?thesis
      unfolding mn by (intro exI[of _ d']) simp
  qed
next
  case (reach_ins d x y)
  then obtain d' where d': "reach a b d' (min x (int (length a))) (min y (int (length b)))"
    "d' + (x - min x (int (length a))) + (y - min y (int (length b))) \<le> d"
    by blast
  show ?case
  proof (cases "y < int (length b)")
    case True
    then have mn: "min y (int (length b)) = y" "min (y + 1) (int (length b)) = y + 1"
      by simp_all
    from reach.reach_ins[OF d'(1)] d'(2) show ?thesis
      unfolding mn by (intro exI[of _ "d' + 1"]) simp
  next
    case False
    then have mn: "min y (int (length b)) = int (length b)"
      "min (y + 1) (int (length b)) = int (length b)"
      by simp_all
    from d' show ?thesis
      unfolding mn by (intro exI[of _ d']) simp
  qed
qed


lemma kinv_initial:
  assumes "a \<noteq> []" "b \<noteq> []"
  shows "kinv a b 0 ((replicate (nat (2 * (int (length b) + int (length a)))) 0)
                       [nat (int (length b) + int (length a) + 1) := 0])"
proof -
  from assms have "2 \<le> int (length b) + int (length a)"
    by (cases a; cases b) auto
  then show ?thesis
    by (auto simp: kinv_def V_def abs_go_def)
qed

lemma search_result:
  assumes ne: "a \<noteq> []" "b \<noteq> []"
  shows "\<exists>vs. d_loop a b 0 ((replicate (nat (2 * (int (length b) + int (length a)))) 0)
                       [nat (int (length b) + int (length a) + 1) := 0]) [] = Inr vs \<and>
           int (length vs) = ed a b + 1 \<and> 0 \<le> ed a b \<and>
           V a b (last vs) (int (length a) - int (length b)) = int (length a) \<and>
           (\<forall>i k. 0 \<le> i \<and> i < ed a b \<and> - i \<le> k \<and> k \<le> i \<and> even (i - k) \<longrightarrow>
              \<not> terminal a b (V a b (vs ! nat i) k) k)"
proof -
  let ?n = "int (length a)" and ?m = "int (length b)"
  let ?v0 = "(replicate (nat (2 * (?m + ?n))) 0)[nat (?m + ?n + 1) := 0]"
  have "\<exists>vs' D k. d_loop a b 0 ?v0 [] = Inr vs' \<and> 0 \<le> D \<and> D \<le> ?m + ?n \<and>
           int (length vs') = D + 1 \<and>
           (\<forall>i. 0 \<le> i \<and> i < D \<longrightarrow> kdone a b i (i + 2) (vs' ! nat i)) \<and>
           - D \<le> k \<and> k \<le> D \<and> even (D - k) \<and> kinv a b D (last vs') \<and>
           kdone a b D k (last vs') \<and> furthest a b D k (V a b (last vs') k) \<and>
           terminal a b (V a b (last vs') k) k"
    by (rule d_loop_ok[OF kinv_initial[OF ne]]) (use ne in auto)
  then obtain vs D k where dl: "d_loop a b 0 ?v0 [] = Inr vs" and D: "0 \<le> D" "D \<le> ?m + ?n"
    and len: "int (length vs) = D + 1"
    and snaps: "\<And>i. 0 \<le> i \<Longrightarrow> i < D \<Longrightarrow> kdone a b i (i + 2) (vs ! nat i)"
    and fur: "furthest a b D k (V a b (last vs) k)"
    and tm: "terminal a b (V a b (last vs) k) k"
    by blast
  let ?X = "V a b (last vs) k"
  from tm have X: "?n \<le> ?X" "?m \<le> ?X - k"
    by (simp_all add: terminal_def)
  have rX: "reach a b D ?X (?X - k)"
    by (rule furthestD(1)[OF fur])
  have opt: "reach a b (ed a b) ?n ?m"
    using reach_optimal[of a 0 a b 0 b 0] by (simp add: reach_start)
  from reach_bounds[OF opt] have E: "0 \<le> ed a b" "- ed a b \<le> ?n - ?m" "?n - ?m \<le> ed a b"
    "even (ed a b - (?n - ?m))"
    by auto
  have le1: "ed a b \<le> D"
    using reach_potential[OF rX] X by simp
  have le2: "D \<le> ed a b"
  proof (rule ccontr)
    assume "\<not> D \<le> ed a b"
    then have lt: "ed a b < D" by simp
    from snaps[OF E(1) lt] E
    have "furthest a b (ed a b) (?n - ?m) (V a b (vs ! nat (ed a b)) (?n - ?m))"
      "\<not> terminal a b (V a b (vs ! nat (ed a b)) (?n - ?m)) (?n - ?m)"
      by (auto simp: kdone_def)
    moreover have "reach a b (ed a b) ?n (?n - (?n - ?m))"
      using opt by simp
    ultimately show False
      using furthestD(2) by (fastforce simp: terminal_def)
  qed
  from le1 le2 have DE: "D = ed a b" by simp
  from reach_clamp[OF rX] X obtain d' where d': "reach a b d' ?n ?m"
    "d' + (?X - ?n) + (?X - k - ?m) \<le> D"
    by (auto simp: min_def split: if_splits)
  from reach_potential[OF d'(1)] have "ed a b \<le> d'" by simp
  with d'(2) DE X have exact: "?X = ?n" "k = ?n - ?m"
    by auto
  have early: "\<not> terminal a b (V a b (vs ! nat i) j) j"
    if "0 \<le> i" "i < ed a b" "- i \<le> j" "j \<le> i" "even (i - j)" for i j
    using snaps[of i] that DE by (auto simp: kdone_def)
  show ?thesis
    using dl len DE E(1) exact early by (intro exI[of _ vs]) auto
qed

section \<open>The backtrace\<close>

lemma offsetOfString_loop_spec:
  "0 \<le> i \<Longrightarrow> offsetOfString_loop i index ss acc = Inr r \<Longrightarrow>
   r = acc + int (length (concat (take (nat index - nat i) (drop (nat i) ss)))) \<and>
   (i < index \<longrightarrow> index \<le> int (length ss))"
proof (induction i index ss acc rule: offsetOfString_loop.induct)
  case (1 i index ss acc)
  show ?case
  proof (cases "i < index")
    case False
    with "1.prems" show ?thesis
      by (subst (asm) offsetOfString_loop.simps) simp
  next
    case True
    with "1.prems" have lt: "i < int (length ss)"
      by (subst (asm) offsetOfString_loop.simps) (auto simp: at_def split: if_splits)
    with "1.prems" True have rec: "offsetOfString_loop (i + 1) index ss (acc + int (length (ss ! nat i))) = Inr r"
      by (subst (asm) offsetOfString_loop.simps) (simp add: at_def)
    have a: "at ss i = Inr (ss ! nat i)"
      using lt "1.prems" by (simp add: at_def)
    from "1.IH"[OF True a _ rec] "1.prems"
    have ih: "r = acc + int (length (ss ! nat i)) +
                int (length (concat (take (nat index - nat (i + 1)) (drop (nat (i + 1)) ss))))"
      "i + 1 < index \<longrightarrow> index \<le> int (length ss)"
      by simp_all
    have "take (nat index - nat i) (drop (nat i) ss) =
            ss ! nat i # take (nat index - nat (i + 1)) (drop (nat (i + 1)) ss)"
    proof -
      have "nat index - nat i = Suc (nat index - nat (i + 1))"
        using True "1.prems" by simp
      moreover have "drop (nat i) ss = ss ! nat i # drop (nat (i + 1)) ss"
        using lt "1.prems" by (intro drop_int_Cons) simp_all
      ultimately show ?thesis by simp
    qed
    with ih lt True show ?thesis by auto
  qed
qed

lemma offsetOfString_spec:
  assumes "offsetOfString index ss = Inr r"
  shows "\<exists>i. i \<le> length ss \<and> r = int (length (concat (take i ss))) \<and>
             (0 \<le> index \<longrightarrow> i = nat index)"
proof -
  from offsetOfString_loop_spec[of 0 index ss 0 r] assms
  have r: "r = int (length (concat (take (nat index) ss)))" and le: "0 < index \<longrightarrow> index \<le> int (length ss)"
    by (simp_all add: offsetOfString_def)
  show ?thesis
  proof (cases "0 < index")
    case True
    with r le show ?thesis by (intro exI[of _ "nat index"]) auto
  next
    case False
    with r show ?thesis by (intro exI[of _ 0]) auto
  qed
qed

lemma offsetOfString_loop_no_msg: "offsetOfString_loop i index ss r \<noteq> Inl (PanicMsg s)"
proof (induction i index ss r rule: offsetOfString_loop.induct)
  case (1 i index ss r)
  then show ?case
    by (subst offsetOfString_loop.simps) (auto simp: at_def split: sum.splits)
qed


lemma backtrace_step_cases:
  assumes "backtrace_step a b vs k = Inr (k', ol, repl)"
  obtains (ins) i rw off where "offsetOfString i a = Inr off" "slice1 b rw = Inr [b ! nat rw]"
      "0 \<le> rw" "rw < int (length b)" "ol = \<lparr>Offset = off, Length = 0\<rparr>" "repl = b ! nat rw"
    | (del) i off where "offsetOfString i a = Inr off" "0 \<le> i" "i < int (length a)"
      "ol = \<lparr>Offset = off, Length = int (length (a ! nat i))\<rparr>" "repl = []"
proof -
  let ?off = "int (length b) + int (length a)"
  from assms obtain v_k where vk: "at (last vs) (?off + k) = Inr v_k"
    unfolding backtrace_step_def Let_def by (cases "at (last vs) (?off + k)") auto
  let ?k' = "if v_k > 0 then k + 1 else k - 1"
  from assms vk obtain nv where nv: "at (last (butlast vs)) (?off + ?k') = Inr nv"
    unfolding backtrace_step_def Let_def
    by (cases "at (last (butlast vs)) (?off + ?k')") auto
  show thesis
  proof (cases "v_k > 0")
    case True
    let ?i = "abs_go v_k - (abs_go v_k - k - (abs_go nv - (k + 1)) - 1)"
    let ?c = "abs_go v_k - k - (abs_go v_k - k - (abs_go nv - (k + 1)) - 1) - 1"
    from assms vk nv True obtain off where off: "offsetOfString ?i a = Inr off"
      unfolding backtrace_step_def Let_def
      by (cases "offsetOfString ?i a") auto
    from assms vk nv True off obtain rw where rw: "slice1 b ?c = Inr rw"
      unfolding backtrace_step_def Let_def
      by (cases "slice1 b ?c") auto
    from rw have c: "0 \<le> ?c" "?c < int (length b)" "rw = [b ! nat ?c]"
      by (auto simp: slice1_def split: if_splits)
    from assms vk nv True off rw have "ol = \<lparr>Offset = off, Length = 0\<rparr>" "repl = concat rw"
      unfolding backtrace_step_def Let_def by auto
    with c rw off show thesis
      by (intro ins[of ?i off ?c]) auto
  next
    case False
    let ?i = "abs_go v_k - (abs_go v_k - abs_go nv - 1) - 1"
    from assms vk nv False obtain off where off: "offsetOfString ?i a = Inr off"
      unfolding backtrace_step_def Let_def
      by (cases "offsetOfString ?i a") auto
    from assms vk nv False off obtain s where s: "at a ?i = Inr s"
      unfolding backtrace_step_def Let_def
      by (cases "at a ?i") auto
    from s have i: "0 \<le> ?i" "?i < int (length a)" "s = a ! nat ?i"
      by (auto simp: at_def split: if_splits)
    from assms vk nv False off s have "ol = \<lparr>Offset = off, Length = int (length s)\<rparr>" "repl = []"
      unfolding backtrace_step_def Let_def by auto
    with i off show thesis
      by (intro del[of ?i off]) auto
  qed
qed

lemma backtrace_step_unit:
  assumes "backtrace_step a b vs k = Inr (k', ol, repl)"
  shows "unit_edit a b \<lparr>Offset = Offset ol, Length = Length ol, replacement = repl\<rparr>"
  using assms
proof (cases rule: backtrace_step_cases)
  case (ins i rw off)
  from offsetOfString_spec[OF ins(1)] ins show ?thesis
    by (auto simp: unit_edit_def)
next
  case (del i off)
  from offsetOfString_spec[OF del(1)] del
  have "nat i < length a" "off = int (length (concat (take (nat i) a)))"
    by auto
  with del show ?thesis
    unfolding unit_edit_def by (intro disjI2 conjI exI[of _ "nat i"]) simp_all
qed

lemma at_no_msg: "at xs i \<noteq> Inl (PanicMsg s)"
  by (simp add: at_def)

lemma slice1_no_msg: "slice1 xs i \<noteq> Inl (PanicMsg s)"
  by (simp add: slice1_def)

lemma offsetOfString_no_msg: "offsetOfString i xs \<noteq> Inl (PanicMsg s)"
  by (simp add: offsetOfString_def offsetOfString_loop_no_msg)

lemma backtrace_step_no_msg: "backtrace_step a b vs k \<noteq> Inl (PanicMsg s)"
  unfolding backtrace_step_def Let_def
  by (auto split: sum.splits simp: at_no_msg slice1_no_msg offsetOfString_no_msg)

lemma insert_edit_length [simp]: "length (insert_edit e l) = Suc (length l)"
  by (induction l) auto

lemma insert_edit_set [simp]: "set (insert_edit e l) = insert e (set l)"
  by (induction l) auto

lemma insert_edit_ascending: "ascending l \<Longrightarrow> ascending (insert_edit e l)"
  by (induction l) (auto simp: ascending_def)

lemma file_edits_Add:
  "file_edits (snd (editSet_Add es fname ol repl)) f =
     (if f = fname
      then insert_edit \<lparr>Offset = Offset ol, Length = Length ol, replacement = repl\<rparr> (file_edits es fname)
      else file_edits es f)"
  by (simp add: editSet_Add_def file_edits_def)

lemma constructEditSet_loop_result:
  "constructEditSet_loop fname a b vs k res0 = Inr es \<Longrightarrow>
   length (file_edits es fname) = length (file_edits res0 fname) + (length vs - 1) \<and>
   (\<forall>f. f \<noteq> fname \<longrightarrow> es f = res0 f) \<and>
   (\<forall>e \<in> set (file_edits es fname). e \<in> set (file_edits res0 fname) \<or> unit_edit a b e) \<and>
   (ascending (file_edits res0 fname) \<longrightarrow> ascending (file_edits es fname))"
proof (induction fname a b vs k res0 rule: constructEditSet_loop.induct)
  case (1 fname a b vs k res0)
  show ?case
  proof (cases "length vs > 1")
    case False
    with "1.prems" show ?thesis
      by (subst (asm) constructEditSet_loop.simps) auto
  next
    case True
    with "1.prems" obtain k' ol repl where st: "backtrace_step a b vs k = Inr (k', ol, repl)"
      by (subst (asm) constructEditSet_loop.simps) (auto split: sum.splits)
    let ?r = "snd (editSet_Add res0 fname ol repl)"
    from "1.prems" True st have rec: "constructEditSet_loop fname a b (butlast vs) k' ?r = Inr es"
      by (subst (asm) constructEditSet_loop.simps) simp
    note ih = "1.IH"[OF True st refl refl rec]
    have other: "?r f = res0 f" if "f \<noteq> fname" for f
      using that by (simp add: editSet_Add_def)
    from ih True backtrace_step_unit[OF st] other show ?thesis
      by (auto simp: file_edits_Add insert_edit_ascending)
  qed
qed

lemma constructEditSet_loop_no_msg: "constructEditSet_loop fname a b vs k r \<noteq> Inl (PanicMsg s)"
proof (induction fname a b vs k r rule: constructEditSet_loop.induct)
  case (1 fname a b vs k r)
  show ?case
    using 1 backtrace_step_no_msg[of a b vs k s]
    by (subst constructEditSet_loop.simps) (auto split: sum.splits)
qed


lemma Diff_general:
  assumes ne: "a \<noteq> []" "b \<noteq> []"
  shows "\<exists>vs. d_loop a b 0 ((replicate (nat (2 * (int (length b) + int (length a)))) 0)
                       [nat (int (length b) + int (length a) + 1) := 0]) [] = Inr vs \<and>
              Diff fname a b = constructEditSet fname a b vs \<and>
              int (length vs) = ed a b + 1 \<and> 0 \<le> ed a b"
proof -
  from search_result[OF ne] obtain vs where
    dl: "d_loop a b 0 ((replicate (nat (2 * (int (length b) + int (length a)))) 0)
                            [nat (int (length b) + int (length a) + 1) := 0]) [] = Inr vs"
    and len: "int (length vs) = ed a b + 1 \<and> 0 \<le> ed a b"
    by blast
  from ne have "2 \<le> int (length b) + int (length a)"
    by (cases a; cases b) auto
  with ne dl have "Diff fname a b = constructEditSet fname a b vs"
    by (simp add: Diff_def Let_def store_def)
  with dl len show ?thesis by blast
qed

section \<open>Degenerate inputs\<close>

text \<open>
  C7. \<open>Diff\<close> of two empty sequences is the empty EditSet. For a non-empty \<open>b\<close>,
  \<open>Diff\<close> of the empty sequence and \<open>b\<close> holds exactly one edit for the file: the
  insertion at offset 0 with length 0 whose replacement is the concatenation of \<open>b\<close>. For
  a non-empty \<open>a\<close>, \<open>Diff\<close> of \<open>a\<close> and the empty sequence holds exactly one edit: the
  deletion at offset 0 whose length is the size of the concatenation of \<open>a\<close>, with the
  empty replacement.
\<close>

theorem Diff_degenerate_inputs:
  "Diff fname [] [] = Inr Map.empty \<and>
   (b \<noteq> [] \<longrightarrow>
      Diff fname [] b = Inr [fname \<mapsto> [\<lparr>Offset = 0, Length = 0, replacement = concat b\<rparr>]]) \<and>
   (a \<noteq> [] \<longrightarrow>
      Diff fname a [] =
        Inr [fname \<mapsto> [\<lparr>Offset = 0, Length = int (length (concat a)), replacement = []\<rparr>]])"
  by (simp add: Diff_def NewEditSet_def editSet_Add_def file_edits_def)

theorem Diff_degenerate_inputs_witness:
  "[''a'', ''bc''] \<noteq> [] \<and>
   Diff ''f'' [] [''a'', ''bc''] =
     Inr [''f'' \<mapsto> [\<lparr>Offset = 0, Length = 0, replacement = ''abc''\<rparr>]] \<and>
   Diff ''f'' [''a'', ''bc''] [] =
     Inr [''f'' \<mapsto> [\<lparr>Offset = 0, Length = 3, replacement = []\<rparr>]]"
  using Diff_degenerate_inputs [of "''f''" "[''a'', ''bc'']" "[''a'', ''bc'']"] by simp

section \<open>The Patch as a read-only EditSet\<close>

text \<open>
  C4. \<open>Add\<close> on a Patch, whatever its arguments, returns the read-only error and leaves
  the Patch as it was: the same hunks, the same rendered text, the same edits.
\<close>

theorem Patch_Add_read_only:
  "fst (Patch_Add p key ol repl) = Some (ErrorsNew ''Add cannot be called on Patch (read-only)'') \<and>
   snd (Patch_Add p key ol repl) = p \<and>
   hunks (snd (Patch_Add p key ol repl)) = hunks p \<and>
   Patch_String (snd (Patch_Add p key ol repl)) = Patch_String p \<and>
   Patch_Edits (snd (Patch_Add p key ol repl)) = Patch_Edits p"
  by (simp add: Patch_Add_def)

text \<open>
  C5, as stated, fails: \<open>ApplyTo\<close> on a Patch does not return an error value, it panics.
\<close>

theorem Patch_ApplyTo_panics_example:
  "Patch_ApplyTo \<lparr>filename = ''f'', hunks = []\<rparr> ''f'' ''text'' =
     Inl (PanicMsg ''Not implemented'')"
  by (simp add: Patch_ApplyTo_def)

text \<open>
  C5, amended. On every Patch and for all arguments, \<open>ApplyTo\<close>, \<open>ApplyToFile\<close> and
  \<open>ApplyToString\<close> signal \<open>Not implemented\<close> by a panic: they return neither a result
  nor an error value.
\<close>

theorem Patch_apply_not_implemented:
  "Patch_ApplyTo p key inp = Inl (PanicMsg ''Not implemented'') \<and>
   Patch_ApplyToFile p fname = Inl (PanicMsg ''Not implemented'') \<and>
   Patch_ApplyToString p key s = Inl (PanicMsg ''Not implemented'')"
  by (simp add: Patch_ApplyTo_def Patch_ApplyToFile_def Patch_ApplyToString_def)

section \<open>The backtrace reads a stored 0 as a deletion\<close>

text \<open>
  C1 at \<open>a = ["x"]\<close>, \<open>b = ["y", "z", "x"]\<close>. The search stores \<open>x\<close> for an insertion and
  \<open>-x\<close> for a deletion, and the backtrace tests \<open>v_k > 0\<close>: the insertion of \<open>"y"\<close>, which
  ends at \<open>x = 0\<close>, is read back as a deletion. The EditSet returned deletes \<open>"x"\<close> and
  inserts only \<open>"z"\<close>; applied to \<open>"x"\<close> it does not give \<open>"yzx"\<close>.
\<close>

theorem Diff_round_trip_fails:
  "Diff ''f'' [''x''] [''y'', ''z'', ''x''] =
     Inr [''f'' \<mapsto> [\<lparr>Offset = 0, Length = 1, replacement = ''''\<rparr>,
                     \<lparr>Offset = 0, Length = 0, replacement = ''z''\<rparr>]] \<and>
   editSet_ApplyTo [''f'' \<mapsto> [\<lparr>Offset = 0, Length = 1, replacement = ''''\<rparr>,
                                \<lparr>Offset = 0, Length = 0, replacement = ''z''\<rparr>]]
       ''f'' (concat [''x''])
     \<noteq> Inr (concat [''y'', ''z'', ''x''])"
  by (simp add: Diff_eval_defs editSet_ApplyTo_def)

section \<open>The concrete rendering scenario\<close>

text \<open>
  C3 at its own input. \<open>Diff\<close> yields the deletion of \<open>"bar\n"\<close> and the insertion of
  \<open>"qux\n"\<close>, as claimed. The rendered text is not the claimed one: \<open>strings.SplitAfter\<close>
  gives a last empty element for a text that ends with a newline, so both line counts of
  the hunk header are 4 instead of 3, and a line holding a single space ends the hunk.
\<close>

theorem render_foo_bar_baz:
  "Diff ''f'' [''foo\<newline>'', ''bar\<newline>'', ''baz\<newline>''] [''foo\<newline>'', ''qux\<newline>'', ''baz\<newline>''] =
     Inr [''f'' \<mapsto> [\<lparr>Offset = 4, Length = 4, replacement = ''''\<rparr>,
                     \<lparr>Offset = 8, Length = 0, replacement = ''qux\<newline>''\<rparr>]] \<and>
   (case createPatch [''f'' \<mapsto> [\<lparr>Offset = 4, Length = 4, replacement = ''''\<rparr>,
                                \<lparr>Offset = 8, Length = 0, replacement = ''qux\<newline>''\<rparr>]]
           ''f'' (concat [''foo\<newline>'', ''bar\<newline>'', ''baz\<newline>'']) of
      Inl pn \<Rightarrow> None
    | Inr (p, er) \<Rightarrow> (case Patch_String p of Inl pn \<Rightarrow> None | Inr s \<Rightarrow> Some s)) =
     Some ''--- f\<newline>+++ f\<newline>@@ -1,4 +1,4 @@\<newline> foo\<newline>-bar\<newline>+qux\<newline> baz\<newline> ''"
proof -
  have nonempty: "[''f'' \<mapsto> l] \<noteq> Map.empty" for l :: "edit list"
    by simp
  have "(case createPatch_main [''f'' \<mapsto> [\<lparr>Offset = 4, Length = 4, replacement = ''''\<rparr>,
                                \<lparr>Offset = 8, Length = 0, replacement = ''qux\<newline>''\<rparr>]]
           ''f'' (concat [''foo\<newline>'', ''bar\<newline>'', ''baz\<newline>'']) of
      Inl pn \<Rightarrow> None
    | Inr (p, er) \<Rightarrow> (case Patch_String p of Inl pn \<Rightarrow> None | Inr s \<Rightarrow> Some s)) =
     Some ''--- f\<newline>+++ f\<newline>@@ -1,4 +1,4 @@\<newline> foo\<newline>-bar\<newline>+qux\<newline> baz\<newline> ''"
    by code_simp
  moreover have "Diff ''f'' [''foo\<newline>'', ''bar\<newline>'', ''baz\<newline>''] [''foo\<newline>'', ''qux\<newline>'', ''baz\<newline>''] =
     Inr [''f'' \<mapsto> [\<lparr>Offset = 4, Length = 4, replacement = ''''\<rparr>,
                     \<lparr>Offset = 8, Length = 0, replacement = ''qux\<newline>''\<rparr>]]"
    by (simp add: Diff_eval_defs)
  ultimately show ?thesis
    unfolding createPatch_def using nonempty by simp
qed

section \<open>Termination of the search\<close>

text \<open>
  C9. For all sequences \<open>a\<close> and \<open>b\<close>, \<open>Diff\<close> never reaches the panic after the loop over
  \<open>d\<close>. For non-empty \<open>a\<close> and \<open>b\<close> (the inputs on which the search runs), the loop over \<open>d\<close>
  returns a history \<open>vs\<close> with one frontier per round \<open>d = 0, ..., D\<close>, where
  \<open>D = length vs - 1\<close> is at most \<open>|a| + |b|\<close>; in the last frontier the point stored for the
  diagonal \<open>|a| - |b|\<close> has \<open>x = |a|\<close>, that is, it is \<open>(|a|, |b|)\<close>; and in no earlier round
  does the extended point of any diagonal pass the test \<open>x >= n && y >= m\<close>.
\<close>

theorem Diff_search_terminates:
  "Diff fname a b \<noteq> Inl (PanicMsg ''Length of SES longer than max (impossible)'') \<and>
   (a \<noteq> [] \<and> b \<noteq> [] \<longrightarrow>
      (\<exists>vs. d_loop a b 0 ((replicate (nat (2 * (int (length b) + int (length a)))) 0)
                            [nat (int (length b) + int (length a) + 1) := 0]) [] = Inr vs \<and>
            vs \<noteq> [] \<and>
            int (length vs) - 1 \<le> int (length a) + int (length b) \<and>
            abs_go (last vs ! nat (int (length b) + int (length a) + (int (length a) - int (length b))))
              = int (length a) \<and>
            (\<forall>i k. 0 \<le> i \<and> i < int (length vs) - 1 \<and> - i \<le> k \<and> k \<le> i \<and> even (i - k) \<longrightarrow>
               \<not> (int (length a) \<le> abs_go (vs ! nat i ! nat (int (length b) + int (length a) + k)) \<and>
                  int (length b) \<le> abs_go (vs ! nat i ! nat (int (length b) + int (length a) + k)) - k))))"
proof (intro conjI impI)
  show "Diff fname a b \<noteq> Inl (PanicMsg ''Length of SES longer than max (impossible)'')"
  proof (cases "a = [] \<or> b = []")
    case True
    then show ?thesis by (auto simp: Diff_def Let_def)
  next
    case False
    then have ne: "a \<noteq> []" "b \<noteq> []" by simp_all
    from Diff_general[OF ne, of fname] obtain vs where
      "Diff fname a b = constructEditSet fname a b vs"
      by blast
    then show ?thesis
      by (simp add: constructEditSet_def constructEditSet_loop_no_msg)
  qed
next
  assume "a \<noteq> [] \<and> b \<noteq> []"
  then have ne: "a \<noteq> []" "b \<noteq> []" by simp_all
  from search_result[OF ne] obtain vs where
    dl: "d_loop a b 0 ((replicate (nat (2 * (int (length b) + int (length a)))) 0)
                            [nat (int (length b) + int (length a) + 1) := 0]) [] = Inr vs"
    and len: "int (length vs) = ed a b + 1" and E: "0 \<le> ed a b"
    and ex: "V a b (last vs) (int (length a) - int (length b)) = int (length a)"
    and early: "\<And>i k. 0 \<le> i \<and> i < ed a b \<and> - i \<le> k \<and> k \<le> i \<and> even (i - k) \<Longrightarrow>
              \<not> terminal a b (V a b (vs ! nat i) k) k"
    by blast
  have "ed a b \<le> int (length a) + int (length b)"
    by (simp add: ed_def)
  with dl len E ex early
  show "\<exists>vs. d_loop a b 0 ((replicate (nat (2 * (int (length b) + int (length a)))) 0)
                            [nat (int (length b) + int (length a) + 1) := 0]) [] = Inr vs \<and>
            vs \<noteq> [] \<and>
            int (length vs) - 1 \<le> int (length a) + int (length b) \<and>
            abs_go (last vs ! nat (int (length b) + int (length a) + (int (length a) - int (length b))))
              = int (length a) \<and>
            (\<forall>i k. 0 \<le> i \<and> i < int (length vs) - 1 \<and> - i \<le> k \<and> k \<le> i \<and> even (i - k) \<longrightarrow>
               \<not> (int (length a) \<le> abs_go (vs ! nat i ! nat (int (length b) + int (length a) + k)) \<and>
                  int (length b) \<le> abs_go (vs ! nat i ! nat (int (length b) + int (length a) + k)) - k))"
    by (intro exI[of _ vs]) (auto simp: V_def terminal_def)
qed

theorem Diff_search_terminates_witness:
  "[''x''] \<noteq> [] \<and> [''y''] \<noteq> [] \<and>
   Diff ''f'' [''x''] [''y''] \<noteq> Inl (PanicMsg ''Length of SES longer than max (impossible)'') \<and>
   (\<exists>vs. d_loop [''x''] [''y''] 0 [0, 0, 0, 0] [] = Inr vs \<and> vs \<noteq> [] \<and> int (length vs) - 1 \<le> 2 \<and>
         abs_go (last vs ! 2) = 1)"
  using Diff_search_terminates [of "''f''" "[''x'']" "[''y'']"]
  by (simp add: numeral_eq_Suc) blast

section \<open>The number of edits\<close>

text \<open>
  C2, amended. For non-empty \<open>a\<close> and \<open>b\<close>, the search ends in the round
  \<open>d = |a| + |b| - 2 * lcs a b\<close>, and whenever \<open>Diff\<close> returns an EditSet (the backtrace
  does not panic), the EditSet holds exactly that many edits for the file. \<open>Diff\<close> of two
  empty sequences returns no edit, and \<open>Diff\<close> with exactly one empty sequence returns
  exactly one edit.
\<close>

theorem Diff_edit_count:
  "(a \<noteq> [] \<and> b \<noteq> [] \<longrightarrow>
      (\<exists>vs. d_loop a b 0 ((replicate (nat (2 * (int (length b) + int (length a)))) 0)
                            [nat (int (length b) + int (length a) + 1) := 0]) [] = Inr vs \<and>
            int (length vs) - 1 = int (length a) + int (length b) - 2 * int (lcs a b)) \<and>
      (\<forall>es. Diff fname a b = Inr es \<longrightarrow>
            int (length (file_edits es fname)) = int (length a) + int (length b) - 2 * int (lcs a b))) \<and>
   (a = [] \<and> b = [] \<longrightarrow> (\<exists>es. Diff fname a b = Inr es \<and> length (file_edits es fname) = 0)) \<and>
   ((a = []) \<noteq> (b = []) \<longrightarrow> (\<exists>es. Diff fname a b = Inr es \<and> length (file_edits es fname) = 1))"
proof (intro conjI impI allI)
  assume "a \<noteq> [] \<and> b \<noteq> []"
  then have ne: "a \<noteq> []" "b \<noteq> []" by simp_all
  from Diff_general[OF ne, of fname]
  show "\<exists>vs. d_loop a b 0 ((replicate (nat (2 * (int (length b) + int (length a)))) 0)
                            [nat (int (length b) + int (length a) + 1) := 0]) [] = Inr vs \<and>
            int (length vs) - 1 = int (length a) + int (length b) - 2 * int (lcs a b)"
    by (auto simp: ed_def)
next
  fix es assume "a \<noteq> [] \<and> b \<noteq> []" and D: "Diff fname a b = Inr es"
  then have ne: "a \<noteq> []" "b \<noteq> []" by simp_all
  from Diff_general[OF ne, of fname] D obtain vs where
    c: "constructEditSet fname a b vs = Inr es" and len: "int (length vs) = ed a b + 1" "0 \<le> ed a b"
    by auto
  from constructEditSet_loop_result[OF c[unfolded constructEditSet_def]]
  have "length (file_edits es fname) = length vs - 1"
    by (simp add: NewEditSet_def file_edits_def)
  with len show "int (length (file_edits es fname)) = int (length a) + int (length b) - 2 * int (lcs a b)"
    by (cases vs) (simp_all add: ed_def)
next
  assume "a = [] \<and> b = []"
  then show "\<exists>es. Diff fname a b = Inr es \<and> length (file_edits es fname) = 0"
    by (simp add: Diff_def NewEditSet_def file_edits_def)
next
  assume "(a = []) \<noteq> (b = [])"
  then show "\<exists>es. Diff fname a b = Inr es \<and> length (file_edits es fname) = 1"
    by (auto simp: Diff_def NewEditSet_def file_edits_def editSet_Add_def Let_def)
qed

theorem Diff_edit_count_witness:
  "[''x''] \<noteq> [] \<and> [''y''] \<noteq> [] \<and>
   Diff ''f'' [''x''] [''y''] =
     Inr [''f'' \<mapsto> [\<lparr>Offset = 0, Length = 1, replacement = ''''\<rparr>,
                     \<lparr>Offset = 1, Length = 0, replacement = ''y''\<rparr>]] \<and>
   int (length (file_edits [''f'' \<mapsto> [\<lparr>Offset = 0, Length = 1, replacement = ''''\<rparr>,
                     \<lparr>Offset = 1, Length = 0, replacement = ''y''\<rparr>]] ''f'')) =
     int (length [''x'']) + int (length [''y'']) - 2 * int (lcs [''x''] [''y''])"
proof -
  have d: "Diff ''f'' [''x''] [''y''] =
     Inr [''f'' \<mapsto> [\<lparr>Offset = 0, Length = 1, replacement = ''''\<rparr>,
                     \<lparr>Offset = 1, Length = 0, replacement = ''y''\<rparr>]]"
    by (simp add: Diff_eval_defs)
  from Diff_edit_count [of "[''x'']" "[''y'']" "''f''"] d show ?thesis
    by simp
qed

text \<open>
  C2, as stated, fails on a degenerate input: for \<open>a = []\<close> and \<open>b = ["x", "y"]\<close> the EditSet
  holds one edit, and \<open>|a| + |b| - 2 * lcs a b = 2\<close>.
\<close>

theorem Diff_edit_count_counterexample:
  "Diff ''f'' [] [''x'', ''y''] = Inr [''f'' \<mapsto> [\<lparr>Offset = 0, Length = 0, replacement = ''xy''\<rparr>]] \<and>
   int (length (file_edits [''f'' \<mapsto> [\<lparr>Offset = 0, Length = 0, replacement = ''xy''\<rparr>]] ''f'')) = 1 \<and>
   int (length ([] :: string list)) + int (length [''x'', ''y'']) - 2 * int (lcs [] [''x'', ''y'']) = 2"
  by (simp add: Diff_eval_defs)

section \<open>The shape of the edits\<close>

text \<open>
  C8, amended. For non-empty \<open>a\<close> and \<open>b\<close>, whenever \<open>Diff\<close> returns an EditSet, every edit
  of the file is either an insertion (length 0, the replacement one whole unit of \<open>b\<close>) at
  the byte offset of the start of a unit of \<open>a\<close> or of the end of the text, or the deletion
  of exactly one unit of \<open>a\<close> (the offset of its start, its size as length, the empty
  replacement); and the edits are in ascending order of offset. When \<open>a\<close> is empty and \<open>b\<close> is
  not, the EditSet holds the single insertion at offset 0 that carries the whole
  concatenation of \<open>b\<close>; when \<open>b\<close> is empty and \<open>a\<close> is not, it holds the single deletion at
  offset 0 that covers the whole concatenation of \<open>a\<close>; when both are empty it holds no edit.
\<close>

theorem Diff_edit_shape:
  "(a \<noteq> [] \<and> b \<noteq> [] \<longrightarrow>
      (\<forall>es. Diff fname a b = Inr es \<longrightarrow>
         (\<forall>e \<in> set (file_edits es fname).
            (Length e = 0 \<and> replacement e \<in> set b \<and>
               (\<exists>i. i \<le> length a \<and> Offset e = int (length (concat (take i a))))) \<or>
            (replacement e = [] \<and>
               (\<exists>i. i < length a \<and> Offset e = int (length (concat (take i a))) \<and>
                     Length e = int (length (a ! i))))) \<and>
         sorted_wrt (\<lambda>e1 e2. Offset e1 \<le> Offset e2) (file_edits es fname))) \<and>
   (a = [] \<and> b \<noteq> [] \<longrightarrow>
      Diff fname a b = Inr [fname \<mapsto> [\<lparr>Offset = 0, Length = 0, replacement = concat b\<rparr>]]) \<and>
   (a \<noteq> [] \<and> b = [] \<longrightarrow>
      Diff fname a b =
        Inr [fname \<mapsto> [\<lparr>Offset = 0, Length = int (length (concat a)), replacement = []\<rparr>]]) \<and>
   (a = [] \<and> b = [] \<longrightarrow> Diff fname a b = Inr Map.empty)"
proof (intro conjI impI allI)
  fix es assume "a \<noteq> [] \<and> b \<noteq> []" and D: "Diff fname a b = Inr es"
  then have ne: "a \<noteq> []" "b \<noteq> []" by simp_all
  from Diff_general[OF ne, of fname] D obtain vs where
    c: "constructEditSet fname a b vs = Inr es"
    by auto
  from constructEditSet_loop_result[OF c[unfolded constructEditSet_def]]
  show "\<forall>e \<in> set (file_edits es fname).
            (Length e = 0 \<and> replacement e \<in> set b \<and>
               (\<exists>i. i \<le> length a \<and> Offset e = int (length (concat (take i a))))) \<or>
            (replacement e = [] \<and>
               (\<exists>i. i < length a \<and> Offset e = int (length (concat (take i a))) \<and>
                     Length e = int (length (a ! i))))"
    and "sorted_wrt (\<lambda>e1 e2. Offset e1 \<le> Offset e2) (file_edits es fname)"
    by (simp_all add: NewEditSet_def file_edits_def ascending_def unit_edit_def)
next
  assume "a = [] \<and> b \<noteq> []"
  then show "Diff fname a b = Inr [fname \<mapsto> [\<lparr>Offset = 0, Length = 0, replacement = concat b\<rparr>]]"
    by (simp add: Diff_def NewEditSet_def editSet_Add_def file_edits_def)
next
  assume "a \<noteq> [] \<and> b = []"
  then show "Diff fname a b =
        Inr [fname \<mapsto> [\<lparr>Offset = 0, Length = int (length (concat a)), replacement = []\<rparr>]]"
    by (simp add: Diff_def NewEditSet_def editSet_Add_def file_edits_def)
next
  assume "a = [] \<and> b = []"
  then show "Diff fname a b = Inr Map.empty"
    by (simp add: Diff_def NewEditSet_def)
qed

theorem Diff_edit_shape_witness:
  "[''x''] \<noteq> [] \<and> [''y''] \<noteq> [] \<and>
   Diff ''f'' [''x''] [''y''] =
     Inr [''f'' \<mapsto> [\<lparr>Offset = 0, Length = 1, replacement = ''''\<rparr>,
                     \<lparr>Offset = 1, Length = 0, replacement = ''y''\<rparr>]] \<and>
   sorted_wrt (\<lambda>e1 e2. Offset e1 \<le> Offset e2)
     (file_edits [''f'' \<mapsto> [\<lparr>Offset = 0, Length = 1, replacement = ''''\<rparr>,
                     \<lparr>Offset = 1, Length = 0, replacement = ''y''\<rparr>]] ''f'') \<and>
   Diff ''f'' [] [''x'', ''y''] =
     Inr [''f'' \<mapsto> [\<lparr>Offset = 0, Length = 0, replacement = ''xy''\<rparr>]] \<and>
   Diff ''f'' [''x'', ''y''] [] =
     Inr [''f'' \<mapsto> [\<lparr>Offset = 0, Length = 2, replacement = ''''\<rparr>]] \<and>
   Diff ''f'' [] [] = Inr Map.empty"
proof -
  have d: "Diff ''f'' [''x''] [''y''] =
     Inr [''f'' \<mapsto> [\<lparr>Offset = 0, Length = 1, replacement = ''''\<rparr>,
                     \<lparr>Offset = 1, Length = 0, replacement = ''y''\<rparr>]]"
    by (simp add: Diff_eval_defs)
  from Diff_edit_shape [of "[''x'']" "[''y'']" "''f''"] d
  have "sorted_wrt (\<lambda>e1 e2. Offset e1 \<le> Offset e2)
     (file_edits [''f'' \<mapsto> [\<lparr>Offset = 0, Length = 1, replacement = ''''\<rparr>,
                     \<lparr>Offset = 1, Length = 0, replacement = ''y''\<rparr>]] ''f'')"
    by simp
  with d Diff_edit_shape [of "[]" "[''x'', ''y'']" "''f''"]
    Diff_edit_shape [of "[''x'', ''y'']" "[]" "''f''"] Diff_edit_shape [of "[]" "[]" "''f''"]
  show ?thesis
    by simp
qed

text \<open>
  C8, as stated, fails on the degenerate inputs: for \<open>a = []\<close>, \<open>b = ["x", "y"]\<close> the only
  edit inserts \<open>"xy"\<close>, which is not one unit of \<open>b\<close>; for \<open>a = ["x", "y"]\<close>, \<open>b = []\<close> the
  only edit deletes 2 bytes, which is not the size of one unit of \<open>a\<close>.
\<close>

theorem Diff_edit_shape_counterexample:
  "Diff ''f'' [] [''x'', ''y''] = Inr [''f'' \<mapsto> [\<lparr>Offset = 0, Length = 0, replacement = ''xy''\<rparr>]] \<and>
   ''xy'' \<notin> set [''x'', ''y''] \<and>
   Diff ''f'' [''x'', ''y''] [] = Inr [''f'' \<mapsto> [\<lparr>Offset = 0, Length = 2, replacement = ''''\<rparr>]] \<and>
   (2::int) \<noteq> int (length ''x'') \<and> (2::int) \<noteq> int (length ''y'')"
  by (simp add: Diff_eval_defs)

section \<open>The edits of a Patch\<close>

lemma unrebase_addLine [simp]: "unrebase (addLine h ln) = unrebase h"
  by (simp add: unrebase_def addLine_def)

lemma unrebase_addEdit [simp]: "unrebase (addEdit h e) = unrebase h @ [e]"
  by (simp add: unrebase_def addEdit_def RelativeToOffset_def)

lemma unrebase_startHunk [simp]: "unrebase (startHunk rd) = []"
proof -
  have "edits (foldl (\<lambda>h ln. h\<lparr>startOffset := startOffset h - int (length ln),
                                startLine := startLine h - 1,
                                numLines := numLines h + 1,
                                hunk := hunk h @ ln\<rparr>) h0 ls) = edits h0" for h0 :: hunk and ls
    by (induction ls arbitrary: h0) simp_all
  then show ?thesis
    by (simp add: unrebase_def startHunk_def Let_def)
qed

lemma addAllEdits_loop_prefix:
  "addAllEdits_loop h rd it lastEdit = Inr (last', h', it') \<Longrightarrow>
   P @ unrebase h = take (nextIndex it) (iter_edits it) \<Longrightarrow>
   nextIndex it \<le> length (iter_edits it) \<Longrightarrow>
   P @ unrebase h' = take (nextIndex it') (iter_edits it') \<and> iter_edits it' = iter_edits it \<and>
   nextIndex it' \<le> length (iter_edits it)"
proof (induction h rd it lastEdit rule: addAllEdits_loop.induct)
  case (1 h rd it lastEdit)
  show ?case
  proof (cases "currentLineIsAffectedBy rd (editIter_edit it) \<and>
                \<not> nextLineIsAffectedBy rd (editIter_edit it)")
    case False
    with "1.prems" show ?thesis
      by (subst (asm) addAllEdits_loop.simps) (auto split: if_splits)
  next
    case True
    then obtain e where e: "editIter_edit it = Some e"
      by (cases "editIter_edit it") (auto simp: currentLineIsAffectedBy_def)
    then have lt: "nextIndex it < length (iter_edits it)" and ee: "e = iter_edits it ! nextIndex it"
      by (auto simp: editIter_edit_def split: if_splits)
    from "1.prems"(1) True e
    have rec: "addAllEdits_loop (addEdit h e) rd (moveToNextEdit it) (editIter_edit it) = Inr (last', h', it')"
      by (subst (asm) addAllEdits_loop.simps) simp
    have "P @ unrebase (addEdit h e) = take (nextIndex (moveToNextEdit it)) (iter_edits (moveToNextEdit it))"
      using "1.prems"(2) lt ee by (simp add: moveToNextEdit_def take_Suc_conv_app_nth)
    moreover have "nextIndex (moveToNextEdit it) \<le> length (iter_edits (moveToNextEdit it))"
      using lt by (simp add: moveToNextEdit_def)
    ultimately show ?thesis
      using "1.IH"[OF _ _ e rec] True by (simp add: moveToNextEdit_def)
  qed
qed

lemma attach_edits_inv:
  assumes "attach_edits rd s = Inr s'"
    and "iter_edits (iter s) = es" "nextIndex (iter s) \<le> length es" "filename (result s) = key"
    and "concat (map unrebase (hunks (result s))) @
           (case cur_hunk s of None \<Rightarrow> [] | Some h \<Rightarrow> unrebase h) = take (nextIndex (iter s)) es"
  shows "cp_inv es key s'"
proof -
  from assms(1) obtain h where h: "cur_hunk s = Some h"
    by (cases "cur_hunk s") (auto simp: attach_edits_def)
  from assms(1) h obtain last_e h' it' where
    a: "addAllEdits_loop h rd (iter s) (editIter_edit (iter s)) = Inr (last_e, h', it')"
    by (cases "addAllEditsOnCurLine h rd (iter s)")
       (auto simp: attach_edits_def addAllEditsOnCurLine_def)
  from addAllEdits_loop_prefix[OF a, of "concat (map unrebase (hunks (result s)))"] assms h
  have p: "concat (map unrebase (hunks (result s))) @ unrebase h' = take (nextIndex it') es"
    "iter_edits it' = es" "nextIndex it' \<le> length es"
    by auto
  from assms(1) h a have "cur_hunk s' = Some h'" "iter s' = it'" "result s' = result s"
    "curState s' \<noteq> HUNK_NOT_STARTED"
    by (auto simp: attach_edits_def addAllEditsOnCurLine_def Let_def split: if_splits)
  with p assms(4) show ?thesis
    by (simp add: cp_inv_def)
qed

lemma createPatch_body_inv:
  assumes "createPatch_body rd s = Inr s'" "cp_inv es key s"
  shows "cp_inv es key s'"
proof (cases "curState s")
  case HUNK_NOT_STARTED
  show ?thesis
  proof (cases "currentLineIsAffectedBy rd (editIter_edit (iter s))")
    case True
    with assms(1) HUNK_NOT_STARTED
    have "attach_edits rd (s\<lparr>cur_hunk := Some (startHunk rd)\<rparr>) = Inr s'"
      by (simp add: createPatch_body_def)
    from attach_edits_inv[OF this, of es key] assms(2) HUNK_NOT_STARTED show ?thesis
      by (auto simp: cp_inv_def)
  next
    case False
    with assms HUNK_NOT_STARTED show ?thesis
      by (auto simp: createPatch_body_def cp_inv_def)
  qed
next
  case ADDING_TO_HUNK
  with assms(1) obtain h where h: "cur_hunk s = Some h"
    by (cases "cur_hunk s") (auto simp: createPatch_body_def)
  with assms(1) ADDING_TO_HUNK
  have "attach_edits rd (s\<lparr>cur_hunk := Some (addLine h (line rd))\<rparr>) = Inr s'"
    by (simp add: createPatch_body_def)
  from attach_edits_inv[OF this, of es key] assms(2) h show ?thesis
    by (auto simp: cp_inv_def)
next
  case EDIT_ADDED_TO_HUNK
  with assms(1) obtain h where h: "cur_hunk s = Some h"
    by (cases "cur_hunk s") (auto simp: createPatch_body_def)
  show ?thesis
  proof (cases "currentLineIsAffectedBy rd (editIter_edit (iter s))")
    case True
    with assms(1) EDIT_ADDED_TO_HUNK h
    have "attach_edits rd (s\<lparr>cur_hunk := Some (addLine h (line rd))\<rparr>) = Inr s'"
      by (simp add: createPatch_body_def Let_def)
    from attach_edits_inv[OF this, of es key] assms(2) h show ?thesis
      by (auto simp: cp_inv_def)
  next
    case False
    with assms EDIT_ADDED_TO_HUNK h show ?thesis
      by (auto simp: createPatch_body_def cp_inv_def Let_def Patch_add_def split: if_splits)
  qed
qed

lemma createPatch_loop_inv:
  "createPatch_loop rd s = Inr (rd', s') \<Longrightarrow> cp_inv es key s \<Longrightarrow> cp_inv es key s'"
proof (induction rd s rule: createPatch_loop.induct)
  case (1 rd s)
  show ?case
  proof (cases "err (readLine rd) = None")
    case False
    with "1.prems" show ?thesis
      by (subst (asm) createPatch_loop.simps) (simp add: Let_def)
  next
    case True
    with "1.prems"(1) obtain s1 where b: "createPatch_body (readLine rd) s = Inr s1"
      and rec: "createPatch_loop (readLine rd) s1 = Inr (rd', s')"
      by (subst (asm) createPatch_loop.simps) (auto simp: Let_def split: sum.splits)
    from "1.IH"[OF refl True b rec] createPatch_body_inv[OF b "1.prems"(2)] show ?thesis
      by simp
  qed
qed

lemma createPatch_main_prefix:
  assumes "createPatch_main e key inp = Inr (p, er)"
  shows "filename p = key \<and>
         (\<exists>N. concat (map unrebase (hunks p)) = take N (file_edits e key))"
proof -
  let ?s0 = "\<lparr>iter = newEditIter e key, curState = HUNK_NOT_STARTED, cur_hunk = None,
              trailingCtxLines = 0, result = \<lparr>filename = key, hunks = []\<rparr>\<rparr>"
  from assms obtain rd s where l: "createPatch_loop (newLineRdr inp) ?s0 = Inr (rd, s)"
    by (cases "createPatch_loop (newLineRdr inp) ?s0") (auto simp: createPatch_main_def)
  have "cp_inv (file_edits e key) key ?s0"
    by (simp add: cp_inv_def newEditIter_def)
  from createPatch_loop_inv[OF l this] have inv: "cp_inv (file_edits e key) key s" .
  show ?thesis
  proof (cases "curState s")
    case HUNK_NOT_STARTED
    with assms l inv show ?thesis
      by (auto simp: createPatch_main_def cp_inv_def Let_def)
  next
    case EDIT_ADDED_TO_HUNK
    with assms l obtain h where h: "cur_hunk s = Some h"
      by (cases "cur_hunk s") (auto simp: createPatch_main_def Let_def)
    with assms l EDIT_ADDED_TO_HUNK
    have "p = Patch_add (result s) (if line rd \<noteq> [] then addLine h (line rd) else h)"
      by (auto simp: createPatch_main_def Let_def)
    with inv h show ?thesis
      by (auto simp: cp_inv_def Patch_add_def)
  next
    case ADDING_TO_HUNK
    with assms l obtain h where h: "cur_hunk s = Some h"
      by (cases "cur_hunk s") (auto simp: createPatch_main_def Let_def)
    let ?h1 = "if line rd \<noteq> [] then addLine h (line rd) else h"
    from assms l ADDING_TO_HUNK h obtain last_e h2 it' where
      a: "addAllEdits_loop ?h1 rd (iter s) (editIter_edit (iter s)) = Inr (last_e, h2, it')"
      and p: "p = Patch_add (result s) h2"
      by (cases "addAllEditsOnCurLine ?h1 rd (iter s)")
         (auto simp: createPatch_main_def Let_def addAllEditsOnCurLine_def split: if_splits)
    from addAllEdits_loop_prefix[OF a, of "concat (map unrebase (hunks (result s)))"] inv h
    have "concat (map unrebase (hunks (result s))) @ unrebase h2 = take (nextIndex it') (file_edits e key)"
      by (auto simp: cp_inv_def)
    with p inv show ?thesis
      by (auto simp: cp_inv_def Patch_add_def)
  qed
qed


lemma foldl_append_edits: "foldl (\<lambda>acc h. acc @ edits h) acc hs = acc @ concat (map edits hs)"
  by (induction hs arbitrary: acc) simp_all

lemma RelativeToOffset_inverse: "RelativeToOffset (RelativeToOffset x (- off)) off = x"
  by (simp add: RelativeToOffset_def)


text \<open>
  C10. \<open>Edits\<close> on a Patch returns the mapping with the single key \<open>filename\<close>, bound to
  the concatenation of the edit lists of the hunks, in hunk order. In a Patch returned by
  \<open>createPatch\<close> the file name is the key given, and every edit of a hunk is an edit of the
  input EditSet for that key with the hunk's start offset subtracted from its offset: adding
  the start offsets back, hunk by hunk, gives a prefix of the file's edits, in order.
\<close>

theorem Patch_Edits_createPatch:
  "Patch_Edits p = [filename p \<mapsto> concat (map edits (hunks p))] \<and>
   (createPatch e key inp = Inr (p, er) \<longrightarrow>
      filename p = key \<and>
      (\<exists>N. concat (map (\<lambda>h. map (\<lambda>x. RelativeToOffset x (- startOffset h)) (edits h)) (hunks p)) =
             take N (file_edits e key)) \<and>
      (\<forall>h \<in> set (hunks p). \<forall>x \<in> set (edits h).
          \<exists>e0 \<in> set (file_edits e key). x = RelativeToOffset e0 (startOffset h)))"
proof (intro conjI impI)
  show "Patch_Edits p = [filename p \<mapsto> concat (map edits (hunks p))]"
    by (simp add: Patch_Edits_def foldl_append_edits)
next
  assume c: "createPatch e key inp = Inr (p, er)"
  have pre: "filename p = key \<and> (\<exists>N. concat (map unrebase (hunks p)) = take N (file_edits e key))"
  proof (cases "e = Map.empty")
    case True
    with c show ?thesis by (auto simp: createPatch_def)
  next
    case False
    with c have "createPatch_main e key inp = Inr (p, er)"
      by (simp add: createPatch_def)
    then show ?thesis by (rule createPatch_main_prefix)
  qed
  then show "filename p = key" by simp
  from pre obtain N where N: "concat (map unrebase (hunks p)) = take N (file_edits e key)"
    by blast
  have un: "unrebase = (\<lambda>h. map (\<lambda>x. RelativeToOffset x (- startOffset h)) (edits h))"
    by (rule ext) (simp add: unrebase_def)
  from N show "\<exists>N. concat (map (\<lambda>h. map (\<lambda>x. RelativeToOffset x (- startOffset h)) (edits h)) (hunks p)) =
             take N (file_edits e key)"
    unfolding un by blast
  show "\<forall>h \<in> set (hunks p). \<forall>x \<in> set (edits h).
          \<exists>e0 \<in> set (file_edits e key). x = RelativeToOffset e0 (startOffset h)"
  proof (intro ballI)
    fix h x assume h: "h \<in> set (hunks p)" and x: "x \<in> set (edits h)"
    let ?e0 = "RelativeToOffset x (- startOffset h)"
    from x have "?e0 \<in> set (unrebase h)"
      by (simp add: unrebase_def)
    with h have "?e0 \<in> set (concat (map unrebase (hunks p)))"
      by auto
    with N have "?e0 \<in> set (file_edits e key)"
      by (auto dest: in_set_takeD)
    moreover have "x = RelativeToOffset ?e0 (startOffset h)"
      by (simp add: RelativeToOffset_inverse)
    ultimately show "\<exists>e0 \<in> set (file_edits e key). x = RelativeToOffset e0 (startOffset h)"
      by blast
  qed
qed


theorem Patch_Edits_createPatch_witness:
  "createPatch [''f'' \<mapsto> [\<lparr>Offset = 8, Length = 2, replacement = ''''\<rparr>]] ''f''
       ''a\<newline>b\<newline>c\<newline>d\<newline>e\<newline>f\<newline>'' =
     Inr (\<lparr>filename = ''f'',
           hunks = [\<lparr>startOffset = 2, startLine = 2, numLines = 5,
                     hunk = ''b\<newline>c\<newline>d\<newline>e\<newline>f\<newline>'',
                     edits = [\<lparr>Offset = 6, Length = 2, replacement = ''''\<rparr>]\<rparr>]\<rparr>, None) \<and>
   Patch_Edits \<lparr>filename = ''f'',
           hunks = [\<lparr>startOffset = 2, startLine = 2, numLines = 5,
                     hunk = ''b\<newline>c\<newline>d\<newline>e\<newline>f\<newline>'',
                     edits = [\<lparr>Offset = 6, Length = 2, replacement = ''''\<rparr>]\<rparr>]\<rparr> =
     [''f'' \<mapsto> [\<lparr>Offset = 6, Length = 2, replacement = ''''\<rparr>]] \<and>
   \<lparr>Offset = 6, Length = 2, replacement = ''''\<rparr> =
     RelativeToOffset \<lparr>Offset = 8, Length = 2, replacement = ''''\<rparr> 2"
proof -
  let ?p = "\<lparr>filename = ''f'',
           hunks = [\<lparr>startOffset = 2, startLine = 2, numLines = 5,
                     hunk = ''b\<newline>c\<newline>d\<newline>e\<newline>f\<newline>'',
                     edits = [\<lparr>Offset = 6, Length = 2, replacement = ''''\<rparr>]\<rparr>]\<rparr>"
  have "createPatch_main [''f'' \<mapsto> [\<lparr>Offset = 8, Length = 2, replacement = ''''\<rparr>]] ''f''
       ''a\<newline>b\<newline>c\<newline>d\<newline>e\<newline>f\<newline>'' = Inr (?p, None)"
    by code_simp
  then have c: "createPatch [''f'' \<mapsto> [\<lparr>Offset = 8, Length = 2, replacement = ''''\<rparr>]] ''f''
       ''a\<newline>b\<newline>c\<newline>d\<newline>e\<newline>f\<newline>'' = Inr (?p, None)"
    by (simp add: createPatch_def)
  from Patch_Edits_createPatch [of ?p "[''f'' \<mapsto> [\<lparr>Offset = 8, Length = 2, replacement = ''''\<rparr>]]"
         "''f''" "''a\<newline>b\<newline>c\<newline>d\<newline>e\<newline>f\<newline>''" None] c
  show ?thesis
    by (simp add: RelativeToOffset_def)
qed

section \<open>The threshold for closing a hunk\<close>

lemma add_lines_Suc:
  "add_lines h rd (Suc j) = add_lines (addLine h (line (readLine rd))) (readLine rd) j"
proof -
  have "[0..<Suc j] = 0 # map Suc [0..<j]"
    by (simp add: upt_conv_Cons map_Suc_upt del: upt_Suc)
  then show ?thesis
    by (simp add: add_lines_def foldl_map funpow_swap1 del: upt_Suc)
qed

lemma untouched_run_Suc:
  "untouched_run rd e (Suc j) \<longleftrightarrow>
     err (readLine rd) = None \<and> \<not> currentLineIsAffectedBy (readLine rd) e \<and>
     untouched_run (readLine rd) e j"
proof -
  have "(\<forall>i<Suc j. P i) \<longleftrightarrow> P 0 \<and> (\<forall>i<j. P (Suc i))" for P
    by (auto simp: less_Suc_eq_0_disj)
  then show ?thesis
    by (simp add: untouched_run_def list_all_iff funpow_swap1)
qed

lemma pending_step:
  assumes "curState s = EDIT_ADDED_TO_HUNK" "cur_hunk s = Some h"
    "\<not> currentLineIsAffectedBy rd (editIter_edit (iter s))"
  shows "createPatch_body rd s =
     (if trailingCtxLines s + 1 < 2 * num_ctx_lines
      then Inr (s\<lparr>cur_hunk := Some (addLine h (line rd)),
                  trailingCtxLines := trailingCtxLines s + 1\<rparr>)
      else Inr (s\<lparr>cur_hunk := None, trailingCtxLines := trailingCtxLines s + 1,
                  result := Patch_add (result s) (addLine h (line rd)),
                  curState := HUNK_NOT_STARTED\<rparr>))"
  using assms by (simp add: createPatch_body_def Let_def)

lemma pending_open:
  "curState s = EDIT_ADDED_TO_HUNK \<Longrightarrow> cur_hunk s = Some h \<Longrightarrow>
   untouched_run rd (editIter_edit (iter s)) j \<Longrightarrow>
   trailingCtxLines s + int j < 2 * num_ctx_lines \<Longrightarrow>
   createPatch_loop rd s =
     createPatch_loop ((readLine ^^ j) rd)
       (s\<lparr>cur_hunk := Some (add_lines h rd j),
          trailingCtxLines := trailingCtxLines s + int j\<rparr>)"
proof (induction j arbitrary: rd s h)
  case 0
  have "s\<lparr>cur_hunk := Some h\<rparr> = s\<lparr>cur_hunk := cur_hunk s\<rparr>"
    using "0.prems"(2) by (rule arg_cong[where f = "\<lambda>x. s\<lparr>cur_hunk := x\<rparr>", OF sym])
  then show ?case
    by (simp add: add_lines_def)
next
  case (Suc j)
  let ?rd = "readLine rd"
  let ?s = "s\<lparr>cur_hunk := Some (addLine h (line ?rd)),
               trailingCtxLines := trailingCtxLines s + 1\<rparr>"
  from Suc.prems(3) have u: "err ?rd = None" "\<not> currentLineIsAffectedBy ?rd (editIter_edit (iter s))"
    "untouched_run ?rd (editIter_edit (iter s)) j"
    by (simp_all add: untouched_run_Suc)
  from pending_step[OF Suc.prems(1,2) u(2)] Suc.prems(4)
  have b: "createPatch_body ?rd s = Inr ?s"
    by simp
  have "createPatch_loop rd s = createPatch_loop ?rd ?s"
    using u(1) b by (subst createPatch_loop.simps) (simp add: Let_def)
  also have "\<dots> = createPatch_loop ((readLine ^^ j) ?rd)
       (?s\<lparr>cur_hunk := Some (add_lines (addLine h (line ?rd)) ?rd j),
          trailingCtxLines := trailingCtxLines ?s + int j\<rparr>)"
    using Suc.prems u(3) by (intro Suc.IH) simp_all
  finally show ?case
    by (simp add: add_lines_Suc funpow_swap1 add.assoc)
qed


lemma pending_close:
  assumes "curState s = EDIT_ADDED_TO_HUNK" "cur_hunk s = Some h"
    "untouched_run rd (editIter_edit (iter s)) (Suc j)"
    "trailingCtxLines s + int (Suc j) = 2 * num_ctx_lines"
  shows "createPatch_loop rd s =
     createPatch_loop ((readLine ^^ Suc j) rd)
       (s\<lparr>cur_hunk := None, trailingCtxLines := 2 * num_ctx_lines,
          result := Patch_add (result s) (add_lines h rd (Suc j)),
          curState := HUNK_NOT_STARTED\<rparr>)"
proof -
  let ?rd = "(readLine ^^ j) rd"
  let ?s = "s\<lparr>cur_hunk := Some (add_lines h rd j),
               trailingCtxLines := trailingCtxLines s + int j\<rparr>"
  from assms(3) have u: "untouched_run rd (editIter_edit (iter s)) j"
    "err (readLine ?rd) = None" "\<not> currentLineIsAffectedBy (readLine ?rd) (editIter_edit (iter s))"
    by (auto simp: untouched_run_def)
  have "createPatch_loop rd s = createPatch_loop ?rd ?s"
    using assms(1,2) u(1) assms(4) by (intro pending_open) simp_all
  also have "createPatch_body (readLine ?rd) ?s =
      Inr (?s\<lparr>cur_hunk := None, trailingCtxLines := trailingCtxLines ?s + 1,
             result := Patch_add (result ?s) (addLine (add_lines h rd j) (line (readLine ?rd))),
             curState := HUNK_NOT_STARTED\<rparr>)"
    using pending_step[of ?s "add_lines h rd j" "readLine ?rd"] assms(1,4) u(3) by simp
  then have "createPatch_loop ?rd ?s =
      createPatch_loop (readLine ?rd)
        (?s\<lparr>cur_hunk := None, trailingCtxLines := trailingCtxLines ?s + 1,
             result := Patch_add (result ?s) (addLine (add_lines h rd j) (line (readLine ?rd))),
             curState := HUNK_NOT_STARTED\<rparr>)"
    using u(2) by (subst createPatch_loop.simps) (simp add: Let_def)
  finally have "createPatch_loop rd s =
      createPatch_loop (readLine ?rd)
        (?s\<lparr>cur_hunk := None, trailingCtxLines := trailingCtxLines ?s + 1,
             result := Patch_add (result ?s) (addLine (add_lines h rd j) (line (readLine ?rd))),
             curState := HUNK_NOT_STARTED\<rparr>)" .
  moreover have "trailingCtxLines ?s + 1 = 2 * num_ctx_lines"
    using assms(4) by simp
  ultimately show ?thesis
    by (simp add: add_lines_def)
qed


lemma addAllEdits_loop_same_hunk:
  "addAllEdits_loop h rd it lastEdit = Inr (last', h', it') \<Longrightarrow>
   startOffset h' = startOffset h \<and> startLine h' = startLine h \<and>
   (\<exists>es'. edits h' = edits h @ es')"
proof (induction h rd it lastEdit rule: addAllEdits_loop.induct)
  case (1 h rd it lastEdit)
  show ?case
  proof (cases "currentLineIsAffectedBy rd (editIter_edit it) \<and>
                \<not> nextLineIsAffectedBy rd (editIter_edit it)")
    case False
    with "1.prems" show ?thesis
      by (subst (asm) addAllEdits_loop.simps) (auto split: if_splits)
  next
    case True
    then obtain e where e: "editIter_edit it = Some e"
      by (cases "editIter_edit it") (auto simp: currentLineIsAffectedBy_def)
    from "1.prems"(1) True e
    have rec: "addAllEdits_loop (addEdit h e) rd (moveToNextEdit it) (editIter_edit it) = Inr (last', h', it')"
      by (subst (asm) addAllEdits_loop.simps) simp
    from "1.IH"[OF _ _ e rec] True show ?thesis
      by (auto simp: addEdit_def)
  qed
qed

lemma attach_edits_same_hunk:
  assumes "attach_edits rd s = Inr s'" "cur_hunk s = Some h"
  shows "result s' = result s \<and>
         (\<exists>h' es'. cur_hunk s' = Some h' \<and> startOffset h' = startOffset h \<and>
                   startLine h' = startLine h \<and> edits h' = edits h @ es') \<and>
         (curState s' = ADDING_TO_HUNK \<or>
          curState s' = EDIT_ADDED_TO_HUNK \<and> (trailingCtxLines s' = 0 \<or> trailingCtxLines s' = 1))"
proof -
  from assms obtain last_e h' it' where
    a: "addAllEdits_loop h rd (iter s) (editIter_edit (iter s)) = Inr (last_e, h', it')"
    by (cases "addAllEditsOnCurLine h rd (iter s)")
       (auto simp: attach_edits_def addAllEditsOnCurLine_def)
  from assms a have "cur_hunk s' = Some h'" "result s' = result s"
    "curState s' = ADDING_TO_HUNK \<or>
          curState s' = EDIT_ADDED_TO_HUNK \<and> (trailingCtxLines s' = 0 \<or> trailingCtxLines s' = 1)"
    by (auto simp: attach_edits_def addAllEditsOnCurLine_def Let_def split: if_splits)
  with addAllEdits_loop_same_hunk[OF a] show ?thesis
    by auto
qed

text \<open>
  C6, amended. In \<open>createPatch\<close>, with \<open>num_ctx_lines = 3\<close>, let a hunk be open in the state
  \<open>EDIT_ADDED_TO_HUNK\<close> with the counter \<open>trailingCtxLines = t\<close>, and let the next \<open>j\<close> lines
  be read without error and be untouched by the pending edit. If \<open>t + j < 2 * 3\<close>, the loop
  goes on after these lines with the same hunk still open, the lines added to it and the
  counter at \<open>t + j\<close>. If \<open>j > 0\<close> and \<open>t + j = 2 * 3\<close>, the loop goes on with the hunk, the
  lines added to it, closed and appended to the patch, and no hunk open. A line that the
  pending edit touches, read in that state, leaves the closed hunks of the patch as they
  are and keeps the same hunk open (same start offset and start line, its edits
  extended); the counter is then 0 or 1 when the state is \<open>EDIT_ADDED_TO_HUNK\<close> again.
\<close>

theorem hunk_close_threshold:
  assumes "curState s = EDIT_ADDED_TO_HUNK" "cur_hunk s = Some h"
    and "untouched_run rd (editIter_edit (iter s)) j"
  shows "(trailingCtxLines s + int j < 2 * num_ctx_lines \<longrightarrow>
            createPatch_loop rd s =
              createPatch_loop ((readLine ^^ j) rd)
                (s\<lparr>cur_hunk := Some (add_lines h rd j),
                   trailingCtxLines := trailingCtxLines s + int j\<rparr>)) \<and>
         (0 < j \<and> trailingCtxLines s + int j = 2 * num_ctx_lines \<longrightarrow>
            createPatch_loop rd s =
              createPatch_loop ((readLine ^^ j) rd)
                (s\<lparr>cur_hunk := None, trailingCtxLines := 2 * num_ctx_lines,
                   result := Patch_add (result s) (add_lines h rd j),
                   curState := HUNK_NOT_STARTED\<rparr>)) \<and>
         (\<forall>rd' s'. currentLineIsAffectedBy rd' (editIter_edit (iter s)) \<and>
                   createPatch_body rd' s = Inr s' \<longrightarrow>
              result s' = result s \<and>
              (\<exists>h' es'. cur_hunk s' = Some h' \<and> startOffset h' = startOffset h \<and>
                   startLine h' = startLine h \<and> edits h' = edits h @ es') \<and>
              (curState s' = ADDING_TO_HUNK \<or>
               curState s' = EDIT_ADDED_TO_HUNK \<and>
                 (trailingCtxLines s' = 0 \<or> trailingCtxLines s' = 1)))"
proof (intro conjI impI allI)
  assume "trailingCtxLines s + int j < 2 * num_ctx_lines"
  with assms show "createPatch_loop rd s =
              createPatch_loop ((readLine ^^ j) rd)
                (s\<lparr>cur_hunk := Some (add_lines h rd j),
                   trailingCtxLines := trailingCtxLines s + int j\<rparr>)"
    by (rule pending_open)
next
  assume j: "0 < j \<and> trailingCtxLines s + int j = 2 * num_ctx_lines"
  then obtain j' where "j = Suc j'"
    by (cases j) auto
  with assms j show "createPatch_loop rd s =
              createPatch_loop ((readLine ^^ j) rd)
                (s\<lparr>cur_hunk := None, trailingCtxLines := 2 * num_ctx_lines,
                   result := Patch_add (result s) (add_lines h rd j),
                   curState := HUNK_NOT_STARTED\<rparr>)"
    using pending_close[of s h rd j'] by simp
next
  fix rd' s'
  assume "currentLineIsAffectedBy rd' (editIter_edit (iter s)) \<and> createPatch_body rd' s = Inr s'"
  then have t: "currentLineIsAffectedBy rd' (editIter_edit (iter s))"
    and b: "createPatch_body rd' s = Inr s'"
    by simp_all
  from b t assms(1,2) have "attach_edits rd' (s\<lparr>cur_hunk := Some (addLine h (line rd'))\<rparr>) = Inr s'"
    by (simp add: createPatch_body_def Let_def)
  from attach_edits_same_hunk[OF this, of "addLine h (line rd')"]
  show "result s' = result s"
    "\<exists>h' es'. cur_hunk s' = Some h' \<and> startOffset h' = startOffset h \<and>
                   startLine h' = startLine h \<and> edits h' = edits h @ es'"
    "curState s' = ADDING_TO_HUNK \<or>
               curState s' = EDIT_ADDED_TO_HUNK \<and>
                 (trailingCtxLines s' = 0 \<or> trailingCtxLines s' = 1)"
    by (simp_all add: addLine_def)
qed


theorem hunk_close_threshold_witness:
  "curState \<lparr>iter = \<lparr>iter_edits = [\<lparr>Offset = 40, Length = 0, replacement = ''Y\<newline>''\<rparr>], nextIndex = 0\<rparr>,
             curState = EDIT_ADDED_TO_HUNK,
             cur_hunk = Some \<lparr>startOffset = 0, startLine = 1, numLines = 1, hunk = ''x\<newline>'', edits = []\<rparr>,
             trailingCtxLines = 0, result = \<lparr>filename = ''f'', hunks = []\<rparr>\<rparr> = EDIT_ADDED_TO_HUNK \<and>
   untouched_run (newLineRdr ''a\<newline>b\<newline>c\<newline>d\<newline>e\<newline>f\<newline>g\<newline>'')
     (Some \<lparr>Offset = 40, Length = 0, replacement = ''Y\<newline>''\<rparr>) 6 \<and>
   (0::int) + int 6 = 2 * num_ctx_lines \<and>
   createPatch_loop (newLineRdr ''a\<newline>b\<newline>c\<newline>d\<newline>e\<newline>f\<newline>g\<newline>'')
     \<lparr>iter = \<lparr>iter_edits = [\<lparr>Offset = 40, Length = 0, replacement = ''Y\<newline>''\<rparr>], nextIndex = 0\<rparr>,
      curState = EDIT_ADDED_TO_HUNK,
      cur_hunk = Some \<lparr>startOffset = 0, startLine = 1, numLines = 1, hunk = ''x\<newline>'', edits = []\<rparr>,
      trailingCtxLines = 0, result = \<lparr>filename = ''f'', hunks = []\<rparr>\<rparr> =
   createPatch_loop ((readLine ^^ 6) (newLineRdr ''a\<newline>b\<newline>c\<newline>d\<newline>e\<newline>f\<newline>g\<newline>''))
     \<lparr>iter = \<lparr>iter_edits = [\<lparr>Offset = 40, Length = 0, replacement = ''Y\<newline>''\<rparr>], nextIndex = 0\<rparr>,
      curState = HUNK_NOT_STARTED,
      cur_hunk = None,
      trailingCtxLines = 6,
      result = \<lparr>filename = ''f'',
                hunks = [\<lparr>startOffset = 0, startLine = 1, numLines = 7,
                          hunk = ''x\<newline>a\<newline>b\<newline>c\<newline>d\<newline>e\<newline>f\<newline>'', edits = []\<rparr>]\<rparr>\<rparr>"
proof -
  let ?s = "\<lparr>iter = \<lparr>iter_edits = [\<lparr>Offset = 40, Length = 0, replacement = ''Y\<newline>''\<rparr>], nextIndex = 0\<rparr>,
             curState = EDIT_ADDED_TO_HUNK,
             cur_hunk = Some \<lparr>startOffset = 0, startLine = 1, numLines = 1, hunk = ''x\<newline>'', edits = []\<rparr>,
             trailingCtxLines = 0, result = \<lparr>filename = ''f'', hunks = []\<rparr>\<rparr>"
  let ?rd = "newLineRdr ''a\<newline>b\<newline>c\<newline>d\<newline>e\<newline>f\<newline>g\<newline>''"
  have e: "editIter_edit (iter ?s) = Some \<lparr>Offset = 40, Length = 0, replacement = ''Y\<newline>''\<rparr>"
    by (simp add: editIter_edit_def)
  have u: "untouched_run ?rd (Some \<lparr>Offset = 40, Length = 0, replacement = ''Y\<newline>''\<rparr>) 6"
    by (simp add: eval_nat_numeral untouched_run_Suc untouched_run_def[of _ _ 0] readLine_def
          ReadString_def newLineRdr_def currentLineIsAffectedBy_def offsetPastEnd_def
          OffsetPastEnd_def num_ctx_lines_def Let_def)
  have al: "add_lines \<lparr>startOffset = 0, startLine = 1, numLines = 1, hunk = ''x\<newline>'', edits = []\<rparr> ?rd 6 =
     \<lparr>startOffset = 0, startLine = 1, numLines = 7,
                          hunk = ''x\<newline>a\<newline>b\<newline>c\<newline>d\<newline>e\<newline>f\<newline>'', edits = []\<rparr>"
    by (simp add: eval_nat_numeral add_lines_Suc add_lines_def[of _ _ 0] addLine_def readLine_def
          ReadString_def newLineRdr_def Let_def)
  from hunk_close_threshold [of ?s "\<lparr>startOffset = 0, startLine = 1, numLines = 1, hunk = ''x\<newline>'', edits = []\<rparr>"
         ?rd 6] u e al
  show ?thesis
    by (simp add: num_ctx_lines_def Patch_add_def)
qed

text \<open>
  C6, as stated, fails. In a text of twelve two-byte lines, two zero-length insertions at
  the starts of lines 2 and 8 touch lines 2 and 8 only, so exactly \<open>2 * 3 - 1 = 5\<close>
  untouched lines separate them, and they are placed in two hunks: after an insertion at
  the start of the line just read the counter starts at 1. And the deletions of lines 2
  and 9, with the six whole lines 3 to 8 between them in neither deleted range, are
  placed in one hunk: the line that starts where a deletion ends counts as touched.
\<close>

theorem hunk_threshold_counterexample:
  "createPatch [''f'' \<mapsto> [\<lparr>Offset = 2, Length = 0, replacement = ''X\<newline>''\<rparr>,
                            \<lparr>Offset = 14, Length = 0, replacement = ''Y\<newline>''\<rparr>]] ''f'' ''a\<newline>b\<newline>c\<newline>d\<newline>e\<newline>f\<newline>g\<newline>h\<newline>i\<newline>j\<newline>k\<newline>l\<newline>'' =
     Inr (\<lparr>filename = ''f'',
           hunks = [\<lparr>startOffset = 0, startLine = 1, numLines = 7,
                     hunk = ''a\<newline>b\<newline>c\<newline>d\<newline>e\<newline>f\<newline>g\<newline>'',
                     edits = [\<lparr>Offset = 2, Length = 0, replacement = ''X\<newline>''\<rparr>]\<rparr>,
                    \<lparr>startOffset = 8, startLine = 5, numLines = 8,
                     hunk = ''e\<newline>f\<newline>g\<newline>h\<newline>i\<newline>j\<newline>k\<newline>l\<newline>'',
                     edits = [\<lparr>Offset = 6, Length = 0, replacement = ''Y\<newline>''\<rparr>]\<rparr>]\<rparr>, None) \<and>
   map (\<lambda>i. currentLineIsAffectedBy ((readLine ^^ i) (newLineRdr ''a\<newline>b\<newline>c\<newline>d\<newline>e\<newline>f\<newline>g\<newline>h\<newline>i\<newline>j\<newline>k\<newline>l\<newline>''))
               (Some \<lparr>Offset = 2, Length = 0, replacement = ''X\<newline>''\<rparr>) \<or>
             currentLineIsAffectedBy ((readLine ^^ i) (newLineRdr ''a\<newline>b\<newline>c\<newline>d\<newline>e\<newline>f\<newline>g\<newline>h\<newline>i\<newline>j\<newline>k\<newline>l\<newline>''))
               (Some \<lparr>Offset = 14, Length = 0, replacement = ''Y\<newline>''\<rparr>)) [1..<13] =
     [False, True, False, False, False, False, False, True, False, False, False, False] \<and>
   createPatch [''f'' \<mapsto> [\<lparr>Offset = 2, Length = 2, replacement = ''''\<rparr>,
                            \<lparr>Offset = 16, Length = 2, replacement = ''''\<rparr>]] ''f'' ''a\<newline>b\<newline>c\<newline>d\<newline>e\<newline>f\<newline>g\<newline>h\<newline>i\<newline>j\<newline>k\<newline>l\<newline>'' =
     Inr (\<lparr>filename = ''f'',
           hunks = [\<lparr>startOffset = 0, startLine = 1, numLines = 12,
                     hunk = ''a\<newline>b\<newline>c\<newline>d\<newline>e\<newline>f\<newline>g\<newline>h\<newline>i\<newline>j\<newline>k\<newline>l\<newline>'',
                     edits = [\<lparr>Offset = 2, Length = 2, replacement = ''''\<rparr>,
                              \<lparr>Offset = 16, Length = 2, replacement = ''''\<rparr>]\<rparr>]\<rparr>, None)"
proof -
  have 1: "createPatch_main [''f'' \<mapsto> [\<lparr>Offset = 2, Length = 0, replacement = ''X\<newline>''\<rparr>,
                            \<lparr>Offset = 14, Length = 0, replacement = ''Y\<newline>''\<rparr>]] ''f'' ''a\<newline>b\<newline>c\<newline>d\<newline>e\<newline>f\<newline>g\<newline>h\<newline>i\<newline>j\<newline>k\<newline>l\<newline>'' =
     Inr (\<lparr>filename = ''f'',
           hunks = [\<lparr>startOffset = 0, startLine = 1, numLines = 7,
                     hunk = ''a\<newline>b\<newline>c\<newline>d\<newline>e\<newline>f\<newline>g\<newline>'',
                     edits = [\<lparr>Offset = 2, Length = 0, replacement = ''X\<newline>''\<rparr>]\<rparr>,
                    \<lparr>startOffset = 8, startLine = 5, numLines = 8,
                     hunk = ''e\<newline>f\<newline>g\<newline>h\<newline>i\<newline>j\<newline>k\<newline>l\<newline>'',
                     edits = [\<lparr>Offset = 6, Length = 0, replacement = ''Y\<newline>''\<rparr>]\<rparr>]\<rparr>, None)"
    by code_simp
  have 2: "map (\<lambda>i. currentLineIsAffectedBy ((readLine ^^ i) (newLineRdr ''a\<newline>b\<newline>c\<newline>d\<newline>e\<newline>f\<newline>g\<newline>h\<newline>i\<newline>j\<newline>k\<newline>l\<newline>''))
               (Some \<lparr>Offset = 2, Length = 0, replacement = ''X\<newline>''\<rparr>) \<or>
             currentLineIsAffectedBy ((readLine ^^ i) (newLineRdr ''a\<newline>b\<newline>c\<newline>d\<newline>e\<newline>f\<newline>g\<newline>h\<newline>i\<newline>j\<newline>k\<newline>l\<newline>''))
               (Some \<lparr>Offset = 14, Length = 0, replacement = ''Y\<newline>''\<rparr>)) [1..<13] =
     [False, True, False, False, False, False, False, True, False, False, False, False]"
    by (simp add: eval_nat_numeral upt_rec readLine_def ReadString_def newLineRdr_def
          currentLineIsAffectedBy_def offsetPastEnd_def OffsetPastEnd_def num_ctx_lines_def Let_def)
  have 3: "createPatch_main [''f'' \<mapsto> [\<lparr>Offset = 2, Length = 2, replacement = ''''\<rparr>,
                            \<lparr>Offset = 16, Length = 2, replacement = ''''\<rparr>]] ''f'' ''a\<newline>b\<newline>c\<newline>d\<newline>e\<newline>f\<newline>g\<newline>h\<newline>i\<newline>j\<newline>k\<newline>l\<newline>'' =
     Inr (\<lparr>filename = ''f'',
           hunks = [\<lparr>startOffset = 0, startLine = 1, numLines = 12,
                     hunk = ''a\<newline>b\<newline>c\<newline>d\<newline>e\<newline>f\<newline>g\<newline>h\<newline>i\<newline>j\<newline>k\<newline>l\<newline>'',
                     edits = [\<lparr>Offset = 2, Length = 2, replacement = ''''\<rparr>,
                              \<lparr>Offset = 16, Length = 2, replacement = ''''\<rparr>]\<rparr>]\<rparr>, None)"
    by code_simp
  from 1 2 3 show ?thesis
    by (simp add: createPatch_def)
qed


end
